theory Spec2Isabelle
  imports Complex_Main "HOL-Library.Char_ord" "HOL-Library.List_Lexorder" "HOL-Library.AList"
begin

section \<open>The dataset pipeline of \<open>slp/mm/load.py\<close>\<close>

text \<open>
  This theory embeds the vocabulary construction of \<open>load_dataset\<close>, the per-segment
  cleaning loop of \<open>clean_split_dataset\<close> and the cache logic of \<open>load_splits\<close>
  (with \<open>pickle_load\<close> and \<open>pickle_dump\<close> of \<open>slp/util/sys.py\<close>).

  Python strings and byte strings are both \<open>string\<close>: a byte string stands for
  itself and for its UTF-8 decoding, so that \<open>w.decode('utf-8')\<close> is the identity.
  Python's order on strings (lexicographic on code points, a proper prefix first) is the
  lexicographic order on \<open>char list\<close>.
\<close>

subsection \<open>Vocabulary construction (\<open>load_dataset\<close>, lines 60 to 75)\<close>

type_synonym vocab = "string \<rightharpoonup> nat"

text \<open>
  The loop \<open>for w in sorted(all_words): if w not in word2idx: ...\<close>, with the dictionary
  and the running index as the state.
\<close>

fun add_words :: "string list \<Rightarrow> vocab \<times> nat \<Rightarrow> vocab \<times> nat" where
  "add_words [] s = s"
| "add_words (w # ws) (m, idx) =
     (if m w = None then add_words ws (m(w \<mapsto> idx), idx + 1) else add_words ws (m, idx))"

text \<open>
  The loop \<open>for t in SPECIAL_TOKENS: word2idx[t.value] = idx; idx += 1\<close>: the store is
  unconditional, so it overwrites an entry the corpus loop made for the same string.
\<close>

fun add_specials :: "string list \<Rightarrow> vocab \<times> nat \<Rightarrow> vocab \<times> nat" where
  "add_specials [] s = s"
| "add_specials (t # ts) (m, idx) = add_specials ts (m(t \<mapsto> idx), idx + 1)"

text \<open>
  \<open>list(set(all_words))\<close> lists the distinct words in an order Python does not fix;
  \<open>sorted\<close> removes the dependence on it. The enumeration \<open>SPECIAL_TOKENS\<close> lives in
  \<open>slp/config/nlp.py\<close>, which is not part of the sources at hand: the list of its values,
  in declared order, is the parameter \<open>specials\<close>.
\<close>

definition corpus :: "string list \<Rightarrow> string list" where
  "corpus all_words = sort (remdups all_words)"

definition build_vocab :: "string list \<Rightarrow> string list \<Rightarrow> vocab" where
  "build_vocab specials all_words =
     fst (add_specials specials (add_words (corpus all_words) (Map.empty, 0)))"

text \<open>
  Before the label alignment every key of the text sequence is one word interval, and
  the corpus words are the entries of the first feature row of every segment
  (\<open>data[text][seg]['features'][0]\<close>); an empty feature array raises \<open>IndexError\<close>.
\<close>

datatype pyerror = AttributeError | IndexError | KeyError | ValueError
  | UnboundLocalError | FileNotFoundError | UnpicklingError | TypeError

fun collect_words :: "string list list list \<Rightarrow> pyerror + string list" where
  "collect_words [] = Inr []"
| "collect_words (feats # segs) =
     (case feats of
        [] \<Rightarrow> Inl IndexError
      | wrds # _ \<Rightarrow> (case collect_words segs of Inl e \<Rightarrow> Inl e | Inr ws \<Rightarrow> Inr (wrds @ ws)))"

definition word2idx_of :: "string list \<Rightarrow> string list list list \<Rightarrow> pyerror + vocab" where
  "word2idx_of specials segs =
     (case collect_words segs of Inl e \<Rightarrow> Inl e | Inr ws \<Rightarrow> Inr (build_vocab specials ws))"

subsection \<open>Feature arrays and segment records\<close>

text \<open>
  A feature array of the aligned dataset is a two-dimensional numpy array: a list of rows,
  each a list of cells. A cell is a byte string (the text modality) or a float; floats
  are rationals with the three non-finite values. A Python list built by the loops holds
  rows and decoded words or special-token strings, so a sequence remembers whether it is
  an array or a list: only a list has \<open>append\<close>.
\<close>

datatype modality = Text | Audio | Visual

datatype num = NaN | PosInf | NegInf | Fin rat

datatype cell = B string | F num

datatype entry = Row "cell list" | Tok string

datatype seq = NdArray "entry list" | PyList "entry list"

fun rows :: "seq \<Rightarrow> entry list" where
  "rows (NdArray es) = es"
| "rows (PyList es) = es"

type_synonym mods = "(modality \<times> seq) list"

record segrec =
  mods_of :: mods
  video_id :: string
  segment_id :: string
  label :: num

datatype warning = ShapeMismatch string "(modality \<times> nat) list" | NoSplit string | Dropped nat

record mmdata =
  labels :: "(string \<times> num) list"
  features :: "modality \<Rightarrow> string \<rightharpoonup> cell list list"

record dataset =
  standard_train_fold :: "string list"
  standard_valid_fold :: "string list"
  standard_test_fold :: "string list"

text \<open>
  The values of the enumeration \<open>SPECIAL_TOKENS\<close> that the pipeline uses; the
  enumeration itself is declared outside the sources at hand.
\<close>

record special_tokens =
  all_values :: "string list"
  PAD_value :: string
  PAUSE_value :: string

record args =
  modalities :: "modality list"
  remove_pauses :: bool
  remove_neutral :: bool
  max_length :: int
  pad_front :: bool
  pad_back :: bool

record state =
  train :: "segrec list"
  dev :: "segrec list"
  test :: "segrec list"
  num_drop :: "nat option"
  warnings :: "warning list"

subsection \<open>\<open>np.nan_to_num\<close> and \<open>np.sign\<close>\<close>

definition float_max :: rat where
  "float_max = 2 ^ 1024 - 2 ^ 971"

fun nan_to_num :: "num \<Rightarrow> num" where
  "nan_to_num NaN = Fin 0"
| "nan_to_num PosInf = Fin float_max"
| "nan_to_num NegInf = Fin (- float_max)"
| "nan_to_num (Fin r) = Fin r"

fun nan_to_num_cell :: "cell \<Rightarrow> cell" where
  "nan_to_num_cell (F x) = F (nan_to_num x)"
| "nan_to_num_cell (B b) = B b"

fun nan_to_num_entry :: "entry \<Rightarrow> entry" where
  "nan_to_num_entry (Row cs) = Row (map nan_to_num_cell cs)"
| "nan_to_num_entry (Tok s) = Tok s"

definition nan_to_num_seq :: "seq \<Rightarrow> seq" where
  "nan_to_num_seq v = NdArray (map nan_to_num_entry (rows v))"

fun sign_is_zero :: "num \<Rightarrow> bool" where
  "sign_is_zero (Fin r) = (r = 0)"
| "sign_is_zero _ = False"

subsection \<open>The video id: \<open>re.search('(.*)\\[.*\\]', segment).group(1)\<close>\<close>

text \<open>
  A backtracking matcher for this one pattern. \<open>.\<close> matches every character but the
  newline; \<open>.*\<close> is greedy, so the longest first group is tried first; \<open>search\<close>
  tries every start position from the left.
\<close>

definition newline :: char where
  "newline = CHR 0x0A"

fun dot_star_close :: "string \<Rightarrow> bool" where
  "dot_star_close [] = False"
| "dot_star_close (c # cs) =
     (if c = CHR '']'' then True else if c = newline then False else dot_star_close cs)"

fun match_here :: "string \<Rightarrow> string option" where
  "match_here [] = None"
| "match_here (c # cs) =
     (case (if c = newline then None else match_here cs) of
        Some g \<Rightarrow> Some (c # g)
      | None \<Rightarrow> if c = CHR ''['' \<and> dot_star_close cs then Some [] else None)"

fun re_search :: "string \<Rightarrow> string option" where
  "re_search [] = None"
| "re_search (c # cs) =
     (case match_here (c # cs) of Some g \<Rightarrow> Some g | None \<Rightarrow> re_search cs)"

subsection \<open>Dictionaries of sequences and loops that may raise\<close>

text \<open>
  The dictionary \<open>mods\<close> is an association list in insertion order; \<open>AList.update\<close>
  is the item assignment of a Python dictionary (an existing key keeps its place, a new
  key goes last). A \<open>for\<close> loop whose body may raise is \<open>for_each\<close>: the first
  error ends it.
\<close>

fun for_each :: "'a list \<Rightarrow> ('a \<Rightarrow> 's \<Rightarrow> pyerror + 's) \<Rightarrow> 's \<Rightarrow> pyerror + 's" where
  "for_each [] body s = Inr s"
| "for_each (x # xs) body s =
     (case body x s of Inl e \<Rightarrow> Inl e | Inr s' \<Rightarrow> for_each xs body s')"

definition get_item :: "mods \<Rightarrow> modality \<Rightarrow> pyerror + seq" where
  "get_item d k = (case map_of d k of None \<Rightarrow> Inl KeyError | Some v \<Rightarrow> Inr v)"

definition modify :: "(seq \<Rightarrow> pyerror + seq) \<Rightarrow> modality \<Rightarrow> mods \<Rightarrow> pyerror + mods" where
  "modify f k d =
     (case get_item d k of
        Inl e \<Rightarrow> Inl e
      | Inr v \<Rightarrow> (case f v of Inl e \<Rightarrow> Inl e | Inr v' \<Rightarrow> Inr (AList.update k v' d)))"

subsection \<open>Gathering the modalities and the shape check (lines 106 to 117)\<close>

definition gather :: "mmdata \<Rightarrow> string \<Rightarrow> modality list \<Rightarrow> pyerror + mods" where
  "gather d segment ms =
     for_each ms
       (\<lambda>k acc. case features d k segment of
                  None \<Rightarrow> Inl KeyError
                | Some f \<Rightarrow> Inr (AList.update k (NdArray (map Row f)) acc))
       []"

definition mod_shapes :: "mods \<Rightarrow> (modality \<times> nat) list" where
  "mod_shapes d = map (\<lambda>(k, v). (k, length (rows v))) d"

definition shapes_agree :: "mods \<Rightarrow> bool" where
  "shapes_agree d = (length (remdups (map snd (mod_shapes d))) \<le> 1)"

definition nan_to_num_mods :: "modality list \<Rightarrow> mods \<Rightarrow> pyerror + mods" where
  "nan_to_num_mods ms d =
     for_each ms (\<lambda>m acc. if m \<noteq> Text then modify (\<lambda>v. Inr (nan_to_num_seq v)) m acc else Inr acc) d"

subsection \<open>Pause handling (lines 122 to 148)\<close>

text \<open>\<open>w[0].decode('utf-8')\<close>: a float has no \<open>decode\<close>, and neither has a \<open>str\<close>.\<close>

fun first_word :: "entry \<Rightarrow> pyerror + string" where
  "first_word (Row []) = Inl IndexError"
| "first_word (Row (B b # cs)) = Inr b"
| "first_word (Row (F x # cs)) = Inl AttributeError"
| "first_word (Tok []) = Inl IndexError"
| "first_word (Tok (c # cs)) = Inl AttributeError"

fun find_sp :: "nat \<Rightarrow> entry list \<Rightarrow> pyerror + nat list" where
  "find_sp i [] = Inr []"
| "find_sp i (w # ws) =
     (case first_word w of
        Inl e \<Rightarrow> Inl e
      | Inr word \<Rightarrow>
          (case find_sp (i + 1) ws of
             Inl e \<Rightarrow> Inl e
           | Inr sp_idx \<Rightarrow> Inr (if word = ''sp'' then i # sp_idx else sp_idx)))"

text \<open>
  The branch \<open>remove_pauses\<close>: what one modality appends to its fresh list, position
  by position.
\<close>

fun keep_rows :: "modality \<Rightarrow> nat list \<Rightarrow> nat \<Rightarrow> entry list \<Rightarrow> pyerror + entry list" where
  "keep_rows m sp_idx i [] = Inr []"
| "keep_rows m sp_idx i (r # rs) =
     (if i \<in> set sp_idx then keep_rows m sp_idx (i + 1) rs
      else
        (case (if m = Text
               then (case first_word r of Inl e \<Rightarrow> Inl e | Inr word \<Rightarrow> Inr (Tok word))
               else Inr r) of
           Inl e \<Rightarrow> Inl e
         | Inr x \<Rightarrow>
             (case keep_rows m sp_idx (i + 1) rs of
                Inl e \<Rightarrow> Inl e
              | Inr xs \<Rightarrow> Inr (x # xs))))"

definition empty_lists :: "modality list \<Rightarrow> mods" where
  "empty_lists ms = foldl (\<lambda>acc k. AList.update k (PyList []) acc) [] ms"

definition drop_pauses :: "mods \<Rightarrow> nat list \<Rightarrow> modality \<Rightarrow> mods \<Rightarrow> pyerror + mods" where
  "drop_pauses d sp_idx m mods_nosp =
     (case get_item d m of
        Inl e \<Rightarrow> Inl e
      | Inr v \<Rightarrow>
          (case keep_rows m sp_idx 0 (rows v) of
             Inl e \<Rightarrow> Inl e
           | Inr new \<Rightarrow> modify (\<lambda>old. Inr (PyList (rows old @ new))) m mods_nosp))"

text \<open>
  The other branch works on the text array itself. Storing a string in row \<open>i\<close> of the
  array fills the row with it (the conversion to the element type of the array, which
  may shorten the string, is not modelled); at a position that is not a pause the word is
  decoded and then \<open>append\<close> is called on the array, which numpy arrays do not have.
\<close>

fun assign_row :: "string \<Rightarrow> entry \<Rightarrow> entry" where
  "assign_row s (Row cs) = Row (map (\<lambda>c. B s) cs)"
| "assign_row s (Tok t) = Tok s"

fun mark_pauses :: "string \<Rightarrow> nat list \<Rightarrow> nat \<Rightarrow> entry list \<Rightarrow> pyerror + entry list" where
  "mark_pauses pause sp_idx i [] = Inr []"
| "mark_pauses pause sp_idx i (r # rs) =
     (if i \<in> set sp_idx
      then (case mark_pauses pause sp_idx (i + 1) rs of
              Inl e \<Rightarrow> Inl e
            | Inr rs' \<Rightarrow> Inr (assign_row pause r # rs'))
      else (case first_word r of Inl e \<Rightarrow> Inl e | Inr word \<Rightarrow> Inl AttributeError))"

definition handle_pauses :: "special_tokens \<Rightarrow> args \<Rightarrow> mods \<Rightarrow> pyerror + mods" where
  "handle_pauses tk a d =
     (case get_item d Text of
        Inl e \<Rightarrow> Inl e
      | Inr text \<Rightarrow>
          (case find_sp 0 (rows text) of
             Inl e \<Rightarrow> Inl e
           | Inr sp_idx \<Rightarrow>
               if remove_pauses a
               then for_each (modalities a) (drop_pauses d sp_idx) (empty_lists (modalities a))
               else modify
                      (\<lambda>v. case mark_pauses (PAUSE_value tk) sp_idx 0 (rows v) of
                              Inl e \<Rightarrow> Inl e
                            | Inr es \<Rightarrow> Inr (NdArray es))
                      Text d))"

subsection \<open>Length normalisation (lines 149 to 179)\<close>

fun row_shape :: "entry \<Rightarrow> pyerror + nat" where
  "row_shape (Row cs) = Inr (length cs)"
| "row_shape (Tok s) = Inl AttributeError"

definition pad_entry :: "string \<Rightarrow> modality \<Rightarrow> entry list \<Rightarrow> pyerror + entry" where
  "pad_entry pad m es =
     (if m = Text then Inr (Tok pad)
      else (case es of
              [] \<Rightarrow> Inl IndexError
            | e # _ \<Rightarrow>
                (case row_shape e of
                   Inl err \<Rightarrow> Inl err
                 | Inr n \<Rightarrow> Inr (Row (replicate n (F (Fin 0)))))))"

fun pads :: "string \<Rightarrow> modality \<Rightarrow> entry list \<Rightarrow> nat \<Rightarrow> pyerror + entry list" where
  "pads pad m es 0 = Inr []"
| "pads pad m es (Suc k) =
     (case pad_entry pad m es of
        Inl e \<Rightarrow> Inl e
      | Inr p \<Rightarrow> (case pads pad m es k of Inl e \<Rightarrow> Inl e | Inr ps \<Rightarrow> Inr (p # ps)))"

text \<open>
  The statement \<open>t += mods[m]\<close> of the \<open>pad_front\<close> branch has the list of pads on
  its left. When \<open>mods[m]\<close> is a Python list, it extends \<open>t\<close>. When \<open>mods[m]\<close> is
  still a numpy array (the text is not requested, or the pauses are kept), the addition is
  numpy's: both operands are added as arrays, element by element with broadcasting, and
  \<open>t\<close> becomes the array of the sums. numpy first needs an addition for the two element
  types, and has none for strings with byte strings or with floats (\<open>TypeError\<close>); then
  the shapes must broadcast (\<open>ValueError\<close>): along an axis the lengths are equal or one
  of them is 1. The text arrays of the dataset hold byte strings. The left operand holds
  zeros only, so the sum of two finite floats is exact and is the sum of the rationals.
\<close>

fun add_num :: "num \<Rightarrow> num \<Rightarrow> num" where
  "add_num (Fin x) (Fin y) = Fin (x + y)"
| "add_num NaN y = NaN"
| "add_num x NaN = NaN"
| "add_num PosInf NegInf = NaN"
| "add_num NegInf PosInf = NaN"
| "add_num PosInf y = PosInf"
| "add_num x PosInf = PosInf"
| "add_num NegInf y = NegInf"
| "add_num x NegInf = NegInf"

fun float_cell :: "cell \<Rightarrow> bool" where
  "float_cell (F x) = True"
| "float_cell (B b) = False"

fun float_row :: "entry \<Rightarrow> bool" where
  "float_row (Row cs) = list_all float_cell cs"
| "float_row (Tok s) = False"

fun collect :: "(pyerror + 'a) list \<Rightarrow> pyerror + 'a list" where
  "collect [] = Inr []"
| "collect (x # xs) =
     (case x of
        Inl e \<Rightarrow> Inl e
      | Inr v \<Rightarrow> (case collect xs of Inl e \<Rightarrow> Inl e | Inr vs \<Rightarrow> Inr (v # vs)))"

definition broadcast :: "('a \<Rightarrow> 'a \<Rightarrow> pyerror + 'b) \<Rightarrow> 'a list \<Rightarrow> 'a list \<Rightarrow> pyerror + 'b list" where
  "broadcast f xs ys =
     (if length xs = length ys then collect (map2 f xs ys)
      else if length xs = 1 then collect (map (f (hd xs)) ys)
      else if length ys = 1 then collect (map (\<lambda>x. f x (hd ys)) xs)
      else Inl ValueError)"

fun add_cell :: "cell \<Rightarrow> cell \<Rightarrow> pyerror + cell" where
  "add_cell (F x) (F y) = Inr (F (add_num x y))"
| "add_cell c c' = Inl TypeError"

fun add_row :: "entry \<Rightarrow> entry \<Rightarrow> pyerror + entry" where
  "add_row (Row cs) (Row cs') =
     (case broadcast add_cell cs cs' of Inl e \<Rightarrow> Inl e | Inr r \<Rightarrow> Inr (Row r))"
| "add_row e e' = Inl TypeError"

definition numpy_add :: "entry list \<Rightarrow> entry list \<Rightarrow> pyerror + seq" where
  "numpy_add t es =
     (if \<not> (list_all float_row t \<and> list_all float_row es) then Inl TypeError
      else (case broadcast add_row t es of Inl e \<Rightarrow> Inl e | Inr rs \<Rightarrow> Inr (NdArray rs)))"

text \<open>
  One modality. Here \<open>max_length > 0\<close>, so the bound is a natural number. With
  \<open>pad_front\<close> the pads are computed first and then \<open>t += mods[m]\<close> runs: an extension
  for a list, numpy's addition for an array. With \<open>pad_back\<close> the padding is appended to
  \<open>mods[m]\<close> itself: this needs a list, and on an array the first \<open>append\<close> raises, after
  the pad has been computed.
\<close>

definition normalize_length :: "string \<Rightarrow> nat \<Rightarrow> bool \<Rightarrow> bool \<Rightarrow> modality \<Rightarrow> seq \<Rightarrow> pyerror + seq" where
  "normalize_length pad maxlen pf pb m v =
     (let es = rows v; seglen = length es in
      if seglen > maxlen then Inr (PyList (drop (seglen - maxlen) es))
      else if seglen < maxlen \<and> pf then
        (case pads pad m es (maxlen - seglen) of
           Inl e \<Rightarrow> Inl e
         | Inr t \<Rightarrow>
             (case v of
                PyList _ \<Rightarrow> Inr (PyList (t @ es))
              | NdArray _ \<Rightarrow> numpy_add t es))
      else if seglen < maxlen \<and> pb then
        (case v of
           PyList _ \<Rightarrow>
             (case pads pad m es (maxlen - seglen) of
                Inl e \<Rightarrow> Inl e
              | Inr t \<Rightarrow> Inr (PyList (es @ t)))
         | NdArray _ \<Rightarrow>
             (case pad_entry pad m es of Inl e \<Rightarrow> Inl e | Inr p \<Rightarrow> Inl AttributeError))
      else Inr v)"

definition normalize_mods :: "special_tokens \<Rightarrow> args \<Rightarrow> mods \<Rightarrow> pyerror + mods" where
  "normalize_mods tk a d =
     (if max_length a > 0
      then for_each (modalities a)
             (\<lambda>m. modify (normalize_length (PAD_value tk) (nat (max_length a))
                              (pad_front a) (pad_back a) m) m) d
      else Inr d)"

definition asarray_mods :: "modality list \<Rightarrow> mods \<Rightarrow> pyerror + mods" where
  "asarray_mods ms d =
     for_each ms (\<lambda>m acc. if m \<noteq> Text then modify (\<lambda>v. Inr (NdArray (rows v))) m acc else Inr acc) d"

subsection \<open>One iteration of the segment loop (lines 98 to 193)\<close>

text \<open>
  What the iteration has decided when it reaches line 118: the segment was skipped by
  the neutral filter (before \<open>num_drop = 0\<close>), it was dropped by the shape check, or
  it goes on with its video id, its label and its sequences.
\<close>

datatype checked = Neutral | BadShape string "(modality \<times> nat) list" | Passed string num mods

definition check_segment :: "mmdata \<Rightarrow> args \<Rightarrow> string \<times> num \<Rightarrow> pyerror + checked" where
  "check_segment d a sl =
     (case re_search (fst sl) of
        None \<Rightarrow> Inl AttributeError
      | Some vid \<Rightarrow>
          (let lab = nan_to_num (snd sl) in
           if remove_neutral a \<and> sign_is_zero lab then Inr Neutral
           else
             (case gather d (fst sl) (modalities a) of
                Inl e \<Rightarrow> Inl e
              | Inr ms \<Rightarrow>
                  if \<not> shapes_agree ms then Inr (BadShape vid (mod_shapes ms))
                  else Inr (Passed vid lab ms))))"

definition clean_mods :: "special_tokens \<Rightarrow> args \<Rightarrow> mods \<Rightarrow> pyerror + mods" where
  "clean_mods tk a d =
     (case nan_to_num_mods (modalities a) d of
        Inl e \<Rightarrow> Inl e
      | Inr d1 \<Rightarrow>
          (if Text \<in> set (modalities a) then handle_pauses tk a d1 else Inr d1))"

definition finish_mods :: "special_tokens \<Rightarrow> args \<Rightarrow> mods \<Rightarrow> pyerror + mods" where
  "finish_mods tk a d =
     (case normalize_mods tk a d of
        Inl e \<Rightarrow> Inl e
      | Inr d' \<Rightarrow> asarray_mods (modalities a) d')"

definition assign_split :: "dataset \<Rightarrow> segrec \<Rightarrow> state \<Rightarrow> state" where
  "assign_split ds r st =
     (if video_id r \<in> set (standard_train_fold ds) then st\<lparr>train := train st @ [r]\<rparr>
      else if video_id r \<in> set (standard_valid_fold ds) then st\<lparr>dev := dev st @ [r]\<rparr>
      else if video_id r \<in> set (standard_test_fold ds) then st\<lparr>test := test st @ [r]\<rparr>
      else st\<lparr>warnings := warnings st @ [NoSplit (video_id r)]\<rparr>)"

definition clean_segment ::
  "special_tokens \<Rightarrow> dataset \<Rightarrow> mmdata \<Rightarrow> args \<Rightarrow> string \<times> num \<Rightarrow> state \<Rightarrow> pyerror + state" where
  "clean_segment tk ds d a sl st =
     (case check_segment d a sl of
        Inl e \<Rightarrow> Inl e
      | Inr Neutral \<Rightarrow> Inr st
      | Inr (BadShape vid shapes) \<Rightarrow>
          Inr (st\<lparr>num_drop := Some 1, warnings := warnings st @ [ShapeMismatch vid shapes]\<rparr>)
      | Inr (Passed vid lab ms) \<Rightarrow>
          (case clean_mods tk a ms of
             Inl e \<Rightarrow> Inl e
           | Inr ms1 \<Rightarrow>
               (case finish_mods tk a ms1 of
                  Inl e \<Rightarrow> Inl e
                | Inr ms2 \<Rightarrow>
                    Inr (assign_split ds
                           \<lparr>mods_of = ms2, video_id = vid, segment_id = fst sl, label = lab\<rparr>
                           (st\<lparr>num_drop := Some 0\<rparr>)))))"

subsection \<open>\<open>select_dataset\<close> and \<open>clean_split_dataset\<close>\<close>

text \<open>
  The multimodal SDK is outside the repository. What the pipeline takes from it: the two
  dataset descriptors with their standard folds, and the aligned data for a base path, a
  dataset name and a set of modalities (the text features of every word interval, from
  which the vocabulary is built, and the label-aligned sequences), or an error.
\<close>

record sdk =
  cmu_mosi :: dataset
  cmu_mosei :: dataset
  mmdataset :: "string \<Rightarrow> string \<Rightarrow> modality list \<Rightarrow> pyerror + (string list list list \<times> mmdata)"

definition select_dataset :: "sdk \<Rightarrow> string \<Rightarrow> pyerror + dataset" where
  "select_dataset k dataset_name =
     (if dataset_name = ''mosi'' then Inr (cmu_mosi k)
      else if dataset_name = ''mosei'' then Inr (cmu_mosei k)
      else Inl ValueError)"

definition init_state :: state where
  "init_state = \<lparr>train = [], dev = [], test = [], num_drop = None, warnings = []\<rparr>"

text \<open>
  After the loop the counter is logged. It is bound only by an iteration that reached
  line 109; if none did, reading it raises \<open>UnboundLocalError\<close>.
\<close>

definition clean_segments ::
  "special_tokens \<Rightarrow> dataset \<Rightarrow> mmdata \<Rightarrow> args \<Rightarrow> pyerror + state" where
  "clean_segments tk ds d a =
     (case for_each (labels d) (clean_segment tk ds d a) init_state of
        Inl e \<Rightarrow> Inl e
      | Inr st \<Rightarrow>
          (case num_drop st of
             None \<Rightarrow> Inl UnboundLocalError
           | Some n \<Rightarrow> Inr (st\<lparr>warnings := warnings st @ [Dropped n]\<rparr>)))"

definition clean_split_dataset ::
  "sdk \<Rightarrow> special_tokens \<Rightarrow> mmdata \<Rightarrow> string \<Rightarrow> args \<Rightarrow> pyerror + state" where
  "clean_split_dataset k tk d dataset_name a =
     (case select_dataset k dataset_name of
        Inl e \<Rightarrow> Inl e
      | Inr ds \<Rightarrow> clean_segments tk ds d a)"

definition emitted :: "state \<Rightarrow> segrec set" where
  "emitted st = set (train st) \<union> set (dev st) \<union> set (test st)"

subsection \<open>\<open>load_dataset\<close>, the pickle helpers and \<open>load_splits\<close>\<close>

definition load_dataset ::
  "sdk \<Rightarrow> special_tokens \<Rightarrow> string \<Rightarrow> string \<Rightarrow> modality list \<Rightarrow> pyerror + (mmdata \<times> vocab)" where
  "load_dataset k tk base_path dataset_name ms =
     (case select_dataset k dataset_name of
        Inl e \<Rightarrow> Inl e
      | Inr ds \<Rightarrow>
          (case mmdataset k base_path dataset_name ms of
             Inl e \<Rightarrow> Inl e
           | Inr (word_feats, data) \<Rightarrow>
               (case word2idx_of (all_values tk) word_feats of
                  Inl e \<Rightarrow> Inl e
                | Inr word2idx \<Rightarrow> Inr (data, word2idx))))"

type_synonym splits = "segrec list \<times> segrec list \<times> segrec list \<times> vocab"

text \<open>
  The file system, as far as the cache sees it: a path holds nothing, a pickle of a
  value, or bytes that do not unpickle; \<open>creatable\<close> says whether \<open>open(fname, 'wb')\<close>
  succeeds (it raises \<open>FileNotFoundError\<close> when the directory is missing). The
  \<open>pickle\<close> module is outside the repository: a pickle file is represented by the
  value it holds.
\<close>

datatype cache_file = Pickled splits | Corrupt

record filesys =
  files :: "string \<rightharpoonup> cache_file"
  creatable :: "string \<Rightarrow> bool"

definition pickle_load :: "filesys \<Rightarrow> string \<Rightarrow> pyerror + splits" where
  "pickle_load fs fname =
     (case files fs fname of
        None \<Rightarrow> Inl FileNotFoundError
      | Some Corrupt \<Rightarrow> Inl UnpicklingError
      | Some (Pickled v) \<Rightarrow> Inr v)"

definition pickle_dump :: "splits \<Rightarrow> string \<Rightarrow> filesys \<Rightarrow> pyerror + filesys" where
  "pickle_dump v fname fs =
     (if creatable fs fname then Inr (fs\<lparr>files := (files fs)(fname \<mapsto> Pickled v)\<rparr>)
      else Inl FileNotFoundError)"

text \<open>
  The \<open>try\<close> block of \<open>load_splits\<close>: \<open>Some\<close> is the early return (a value, or an
  error other than \<open>FileNotFoundError\<close>, which the handler does not catch), \<open>None\<close>
  falls through to the computation.
\<close>

definition try_cache :: "filesys \<Rightarrow> string option \<Rightarrow> (pyerror + splits) option" where
  "try_cache fs cache =
     (case cache of
        None \<Rightarrow> None
      | Some c \<Rightarrow>
          (case pickle_load fs c of
             Inr v \<Rightarrow> Some (Inr v)
           | Inl e \<Rightarrow> if e = FileNotFoundError then None else Some (Inl e)))"

definition load_splits ::
  "sdk \<Rightarrow> special_tokens \<Rightarrow> string \<Rightarrow> string \<Rightarrow> args \<Rightarrow> string option \<Rightarrow> filesys
     \<Rightarrow> (pyerror + splits) \<times> filesys" where
  "load_splits k tk base_path dataset_name a cache fs =
     (case try_cache fs cache of
        Some r \<Rightarrow> (r, fs)
      | None \<Rightarrow>
          (case load_dataset k tk base_path dataset_name (modalities a) of
             Inl e \<Rightarrow> (Inl e, fs)
           | Inr (data, word2idx) \<Rightarrow>
               (case clean_split_dataset k tk data dataset_name a of
                  Inl e \<Rightarrow> (Inl e, fs)
                | Inr st \<Rightarrow>
                    (let result = (train st, dev st, test st, word2idx) in
                     case cache of
                       None \<Rightarrow> (Inr result, fs)
                     | Some c \<Rightarrow>
                         (case pickle_dump result c fs of
                            Inl e \<Rightarrow> (Inl e, fs)
                          | Inr fs' \<Rightarrow> (Inr result, fs'))))))"





subsection \<open>Notions used in the statements\<close>

text \<open>
  A segment id has a bracketed block when it holds a \<open>[\<close> followed, with no newline
  in between, by a \<open>]\<close>; \<open>block_at\<close> is the same with the block on the first line.
\<close>

definition block_at :: "string \<Rightarrow> bool" where
  "block_at s \<longleftrightarrow> (\<exists>g mid post. s = g @ CHR ''['' # mid @ CHR '']'' # post
                        \<and> newline \<notin> set g \<and> newline \<notin> set mid)"

definition has_block :: "string \<Rightarrow> bool" where
  "has_block s \<longleftrightarrow> (\<exists>pre mid post. s = pre @ CHR ''['' # mid @ CHR '']'' # post \<and> newline \<notin> set mid)"

text \<open>
  The shape-mismatch warnings of a log, the warning and the counter value that the
  outcome of the checks of one iteration stands for, and the segment an emitted record
  comes from.
\<close>

fun is_shape_warning :: "warning \<Rightarrow> bool" where
  "is_shape_warning (ShapeMismatch vid shapes) = True"
| "is_shape_warning w = False"

fun shape_warning :: "pyerror + checked \<Rightarrow> warning list" where
  "shape_warning (Inr (BadShape vid shapes)) = [ShapeMismatch vid shapes]"
| "shape_warning c = []"

fun drops_of :: "pyerror + checked \<Rightarrow> nat" where
  "drops_of (Inr (BadShape vid shapes)) = 1"
| "drops_of c = 0"

definition origin :: "special_tokens \<Rightarrow> mmdata \<Rightarrow> args \<Rightarrow> string \<times> num \<Rightarrow> segrec \<Rightarrow> bool" where
  "origin tk d a sl r \<longleftrightarrow>
     (\<exists>vid lab ms ms1 ms2. check_segment d a sl = Inr (Passed vid lab ms)
        \<and> clean_mods tk a ms = Inr ms1 \<and> finish_mods tk a ms1 = Inr ms2
        \<and> r = \<lparr>mods_of = ms2, video_id = vid, segment_id = fst sl, label = lab\<rparr>)"

subsection \<open>Sample inputs\<close>

text \<open>
  A small corpus for the concrete evaluations below: segment \<open>v1[0]\<close> has three
  aligned positions, one of them a pause; \<open>v2[0]\<close> is a single pause; in \<open>v3[0]\<close>
  the text has two rows and the other modalities one; \<open>v4\<close> has no bracketed block.
\<close>

definition sample_tokens :: special_tokens where
  "sample_tokens =
     \<lparr>all_values = [''[PAD]'', ''[UNK]'', ''[PAUSE]''],
      PAD_value = ''[PAD]'', PAUSE_value = ''[PAUSE]''\<rparr>"

definition sample_folds :: dataset where
  "sample_folds =
     \<lparr>standard_train_fold = [''v1''], standard_valid_fold = [''v2''],
      standard_test_fold = [''v3'']\<rparr>"

definition sample_features :: "modality \<Rightarrow> string \<rightharpoonup> cell list list" where
  "sample_features m =
     (if m = Text
      then [''v1[0]'' \<mapsto> [[B ''hi''], [B ''sp''], [B ''there'']],
            ''v2[0]'' \<mapsto> [[B ''sp'']],
            ''v3[0]'' \<mapsto> [[B ''a''], [B ''b'']],
            ''v4'' \<mapsto> [[B ''a'']]]
      else [''v1[0]'' \<mapsto> [[F (Fin 1), F NaN], [F (Fin 2), F (Fin 3)], [F (Fin 4), F (Fin 5)]],
            ''v2[0]'' \<mapsto> [[F (Fin 7), F (Fin 8)]],
            ''v3[0]'' \<mapsto> [[F (Fin 9), F (Fin 9)]],
            ''v4'' \<mapsto> [[F (Fin 6), F (Fin 6)]]])"

definition sample_data :: "(string \<times> num) list \<Rightarrow> mmdata" where
  "sample_data ls = \<lparr>labels = ls, features = sample_features\<rparr>"

definition sample_sdk :: sdk where
  "sample_sdk =
     \<lparr>cmu_mosi = sample_folds, cmu_mosei = sample_folds,
      mmdataset = (\<lambda>base_path dataset_name ms.
         Inr ([[[''hi'']], [[''sp'']], [[''there'']]], sample_data [(''v1[0]'', Fin 1)]))\<rparr>"

text \<open>The defaults of \<open>clean_split_dataset\<close>.\<close>

definition default_args :: args where
  "default_args =
     \<lparr>modalities = [Audio, Text], remove_pauses = False, remove_neutral = False,
      max_length = - 1, pad_front = False, pad_back = False\<rparr>"

text \<open>Arguments under which the sample segments pass the pause handling.\<close>

definition sample_args :: args where
  "sample_args = default_args\<lparr>remove_pauses := True\<rparr>"

text \<open>
  Segment \<open>v1[0]\<close> after the checks, after the pause handling, and as it is emitted
  without length normalisation, padded at the back and padded at the front to three rows.
\<close>

definition v1_gathered :: mods where
  "v1_gathered =
     [(Audio, NdArray [Row [F (Fin 1), F NaN], Row [F (Fin 2), F (Fin 3)], Row [F (Fin 4), F (Fin 5)]]),
      (Text, NdArray [Row [B ''hi''], Row [B ''sp''], Row [B ''there'']])]"

definition v1_cleaned :: mods where
  "v1_cleaned =
     [(Audio, PyList [Row [F (Fin 1), F (Fin 0)], Row [F (Fin 4), F (Fin 5)]]),
      (Text, PyList [Tok ''hi'', Tok ''there''])]"

definition v1_record :: segrec where
  "v1_record =
     \<lparr>mods_of = [(Audio, NdArray [Row [F (Fin 1), F (Fin 0)], Row [F (Fin 4), F (Fin 5)]]),
                 (Text, PyList [Tok ''hi'', Tok ''there''])],
      video_id = ''v1'', segment_id = ''v1[0]'', label = Fin 1\<rparr>"

definition v1_padded_back :: segrec where
  "v1_padded_back =
     \<lparr>mods_of = [(Audio, NdArray [Row [F (Fin 1), F (Fin 0)], Row [F (Fin 4), F (Fin 5)],
                                  Row [F (Fin 0), F (Fin 0)]]),
                 (Text, PyList [Tok ''hi'', Tok ''there'', Tok ''[PAD]''])],
      video_id = ''v1'', segment_id = ''v1[0]'', label = Fin 1\<rparr>"

definition v1_padded_front :: segrec where
  "v1_padded_front =
     \<lparr>mods_of = [(Audio, NdArray [Row [F (Fin 0), F (Fin 0)], Row [F (Fin 1), F (Fin 0)],
                                  Row [F (Fin 4), F (Fin 5)]]),
                 (Text, PyList [Tok ''[PAD]'', Tok ''hi'', Tok ''there''])],
      video_id = ''v1'', segment_id = ''v1[0]'', label = Fin 1\<rparr>"



definition sample_splits :: splits where
  "sample_splits = ([], [], [], Map.empty)"

definition hit_fs :: filesys where
  "hit_fs = \<lparr>files = [''cache.p'' \<mapsto> Pickled sample_splits, ''bad.p'' \<mapsto> Corrupt],
             creatable = (\<lambda>fname. True)\<rparr>"


definition v1_audio_only :: segrec where
  "v1_audio_only =
     \<lparr>mods_of = [(Audio, NdArray [Row [F (Fin 1), F (Fin 0)], Row [F (Fin 2), F (Fin 3)],
                                  Row [F (Fin 4), F (Fin 5)]])],
      video_id = ''v1'', segment_id = ''v1[0]'', label = Fin 1\<rparr>"

section \<open>The vocabulary\<close>

lemma add_words_snd: "distinct ws \<Longrightarrow> set ws \<inter> dom m = {} \<Longrightarrow> snd (add_words ws (m, idx)) = idx + length ws"
  by (induction ws arbitrary: m idx) auto

lemma add_words_other: "w \<notin> set ws \<Longrightarrow> fst (add_words ws (m, idx)) w = m w"
  by (induction ws arbitrary: m idx) auto

lemma add_words_nth:
  "distinct ws \<Longrightarrow> set ws \<inter> dom m = {} \<Longrightarrow> i < length ws \<Longrightarrow>
   fst (add_words ws (m, idx)) (ws ! i) = Some (idx + i)"
proof (induction ws arbitrary: m idx i)
  case Nil
  then show ?case by simp
next
  case (Cons w ws)
  have none: "m w = None" using Cons.prems(2) by auto
  have disj: "set ws \<inter> dom (m(w \<mapsto> idx)) = {}" using Cons.prems(1,2) by auto
  show ?case
  proof (cases i)
    case 0
    then show ?thesis using none Cons.prems(1) by (simp add: add_words_other)
  next
    case (Suc j)
    then have "j < length ws" using Cons.prems(3) by simp
    moreover have "distinct ws" using Cons.prems(1) by simp
    ultimately have "fst (add_words ws (m(w \<mapsto> idx), idx + 1)) (ws ! j) = Some (idx + 1 + j)"
      using disj by (rule Cons.IH[rotated 2])
    then show ?thesis using none Suc by simp
  qed
qed

lemma add_specials_snd: "snd (add_specials ts (m, idx)) = idx + length ts"
  by (induction ts arbitrary: m idx) auto

lemma add_specials_other: "w \<notin> set ts \<Longrightarrow> fst (add_specials ts (m, idx)) w = m w"
  by (induction ts arbitrary: m idx) auto

lemma add_specials_nth:
  "distinct ts \<Longrightarrow> i < length ts \<Longrightarrow> fst (add_specials ts (m, idx)) (ts ! i) = Some (idx + i)"
proof (induction ts arbitrary: m idx i)
  case Nil
  then show ?case by simp
next
  case (Cons t ts)
  show ?case
  proof (cases i)
    case 0
    then show ?thesis using Cons.prems(1) by (simp add: add_specials_other)
  next
    case (Suc j)
    then have "j < length ts" using Cons.prems(2) by simp
    then have "fst (add_specials ts (m(t \<mapsto> idx), idx + 1)) (ts ! j) = Some (idx + 1 + j)"
      using Cons.IH Cons.prems(1) by simp
    then show ?thesis using Suc by simp
  qed
qed

lemma corpus_props: "distinct (corpus ws)" "set (corpus ws) = set ws" "sorted (corpus ws)"
  "length (corpus ws) = card (set ws)"
  by (simp_all add: corpus_def length_remdups_card_conv)

lemma vocab_special:
  assumes "distinct specials" "i < length specials"
  shows "build_vocab specials ws (specials ! i) = Some (card (set ws) + i)"
proof -
  obtain m idx where mi: "add_words (corpus ws) (Map.empty, 0) = (m, idx)"
    by (cases "add_words (corpus ws) (Map.empty, 0)")
  have "idx = card (set ws)"
    using add_words_snd[of "corpus ws" Map.empty 0] mi
    by (simp add: corpus_props)
  then show ?thesis
    using add_specials_nth[OF assms, of m idx] mi by (simp add: build_vocab_def)
qed

lemma vocab_corpus:
  assumes "i < card (set ws)" "corpus ws ! i \<notin> set specials"
  shows "build_vocab specials ws (corpus ws ! i) = Some i"
proof -
  have len: "i < length (corpus ws)" using assms(1) by (simp add: corpus_props)
  obtain m idx where mi: "add_words (corpus ws) (Map.empty, 0) = (m, idx)"
    by (cases "add_words (corpus ws) (Map.empty, 0)")
  have "fst (add_words (corpus ws) (Map.empty, 0)) (corpus ws ! i) = Some (0 + i)"
    using corpus_props(1) _ len by (rule add_words_nth) simp
  then have "m (corpus ws ! i) = Some i" using mi by simp
  then show ?thesis
    using add_specials_other[OF assms(2), of m idx] mi by (simp add: build_vocab_def)
qed

lemma vocab_none:
  assumes "w \<notin> set ws" "w \<notin> set specials"
  shows "build_vocab specials ws w = None"
proof -
  obtain m idx where mi: "add_words (corpus ws) (Map.empty, 0) = (m, idx)"
    by (cases "add_words (corpus ws) (Map.empty, 0)")
  have "fst (add_words (corpus ws) (Map.empty, 0)) w = Map.empty w"
    by (rule add_words_other) (simp add: corpus_props assms)
  then have "m w = None" using mi by simp
  then show ?thesis
    using add_specials_other[OF assms(2), of m idx] mi by (simp add: build_vocab_def)
qed

lemma vocab_cases:
  assumes "distinct specials" "build_vocab specials ws w = Some j"
  shows "(\<exists>i<length specials. w = specials ! i \<and> j = card (set ws) + i) \<or>
         (\<exists>i<card (set ws). w = corpus ws ! i \<and> w \<notin> set specials \<and> j = i)"
proof (cases "w \<in> set specials")
  case True
  then obtain i where i: "i < length specials" "w = specials ! i" by (auto simp: in_set_conv_nth)
  then show ?thesis using vocab_special[OF assms(1) i(1), of ws] assms(2) by auto
next
  case False
  then have "w \<in> set ws" using vocab_none[of w ws specials] assms(2) by auto
  then have "w \<in> set (corpus ws)" by (simp add: corpus_props)
  then obtain i where i: "i < length (corpus ws)" "w = corpus ws ! i" by (auto simp: in_set_conv_nth)
  then have "i < card (set ws)" by (simp add: corpus_props)
  then show ?thesis using vocab_corpus[of i ws specials] i False assms(2) by auto
qed

lemma vocab_dom: "distinct specials \<Longrightarrow> dom (build_vocab specials ws) = set ws \<union> set specials"
proof (intro set_eqI iffI)
  fix w assume d: "distinct specials" and "w \<in> dom (build_vocab specials ws)"
  then show "w \<in> set ws \<union> set specials" using vocab_none[of w ws specials]
    by (cases "w \<in> set ws"; cases "w \<in> set specials") auto
next
  fix w assume d: "distinct specials" and w: "w \<in> set ws \<union> set specials"
  show "w \<in> dom (build_vocab specials ws)"
  proof (cases "w \<in> set specials")
    case True
    then obtain i where "i < length specials" "w = specials ! i" by (auto simp: in_set_conv_nth)
    then show ?thesis using vocab_special[OF d, of i ws] by auto
  next
    case False
    then have "w \<in> set (corpus ws)" using w by (simp add: corpus_props)
    then obtain i where i: "i < length (corpus ws)" "w = corpus ws ! i" by (auto simp: in_set_conv_nth)
    then show ?thesis using vocab_corpus[of i ws specials] False by (auto simp: corpus_props)
  qed
qed

lemma vocab_inj:
  assumes "distinct specials"
  shows "inj_on (build_vocab specials ws) (dom (build_vocab specials ws))"
proof (rule inj_onI)
  fix x y
  assume x: "x \<in> dom (build_vocab specials ws)" and y: "y \<in> dom (build_vocab specials ws)"
    and eq: "build_vocab specials ws x = build_vocab specials ws y"
  from x obtain j where jx: "build_vocab specials ws x = Some j" by auto
  then have jy: "build_vocab specials ws y = Some j" using eq by simp
  show "x = y"
    using vocab_cases[OF assms jx] vocab_cases[OF assms jy] by auto
qed

lemma vocab_ran:
  assumes "distinct specials"
  shows "ran (build_vocab specials ws) =
     {0..<card (set ws) + length specials} - {i. i < card (set ws) \<and> corpus ws ! i \<in> set specials}"
proof (intro set_eqI iffI)
  fix j assume "j \<in> ran (build_vocab specials ws)"
  then obtain w where w: "build_vocab specials ws w = Some j" by (auto simp: ran_def)
  from vocab_cases[OF assms w]
  show "j \<in> {0..<card (set ws) + length specials} - {i. i < card (set ws) \<and> corpus ws ! i \<in> set specials}"
    by auto
next
  fix j assume j: "j \<in> {0..<card (set ws) + length specials} - {i. i < card (set ws) \<and> corpus ws ! i \<in> set specials}"
  show "j \<in> ran (build_vocab specials ws)"
  proof (cases "j < card (set ws)")
    case True
    then have "corpus ws ! j \<notin> set specials" using j by auto
    then show ?thesis using vocab_corpus[OF True] by (auto simp: ran_def)
  next
    case False
    then have "j - card (set ws) < length specials" using j by auto
    from vocab_special[OF assms this, of ws] False show ?thesis by (auto simp: ran_def)
  qed
qed


text \<open>
  C1, as the code has it. With the special tokens pairwise distinct (they are the values
  of an enumeration): no two distinct tokens share an index; the tokens are the corpus
  words and the special tokens; the special tokens hold the top \<open>length specials\<close>
  indices \<open>n, n + 1, ...\<close> in declared order, where \<open>n\<close> is the number of distinct
  corpus words; a corpus word that is not a special-token string holds its rank in the
  sorted corpus; the indices in use are \<open>[0, n + length specials)\<close> without the ranks
  of the corpus words that are special-token strings; and when no corpus word is a
  special-token string, the indices are exactly the contiguous range \<open>[0, N)\<close> for the
  \<open>N\<close> tokens of the vocabulary.
\<close>

theorem vocab_indices:
  assumes "distinct specials"
  shows "inj_on (build_vocab specials ws) (dom (build_vocab specials ws))
    \<and> dom (build_vocab specials ws) = set ws \<union> set specials
    \<and> (\<forall>i<length specials. build_vocab specials ws (specials ! i) = Some (card (set ws) + i))
    \<and> (\<forall>i<card (set ws). corpus ws ! i \<notin> set specials
          \<longrightarrow> build_vocab specials ws (corpus ws ! i) = Some i)
    \<and> ran (build_vocab specials ws) =
        {0..<card (set ws) + length specials}
          - {i. i < card (set ws) \<and> corpus ws ! i \<in> set specials}
    \<and> (set ws \<inter> set specials = {}
          \<longrightarrow> ran (build_vocab specials ws) = {0..<card (dom (build_vocab specials ws))})"
proof -
  have disjoint: "ran (build_vocab specials ws) = {0..<card (dom (build_vocab specials ws))}"
    if d: "set ws \<inter> set specials = {}"
  proof -
    have "{i. i < card (set ws) \<and> corpus ws ! i \<in> set specials} = {}"
    proof -
      have "corpus ws ! i \<in> set ws" if "i < card (set ws)" for i
        using that nth_mem[of i "corpus ws"] by (simp add: corpus_props)
      then show ?thesis using d by auto
    qed
    moreover have "card (set ws \<union> set specials) = card (set ws) + length specials"
      using d assms by (simp add: card_Un_disjoint distinct_card)
    ultimately show ?thesis unfolding vocab_ran[OF assms] vocab_dom[OF assms] by auto
  qed
  show ?thesis
    using vocab_inj[OF assms] vocab_dom[OF assms] vocab_special[OF assms] vocab_corpus
      vocab_ran[OF assms] disjoint
    by blast
qed

text \<open>
  The claim as written fails on a corpus that holds a special-token string: the store of
  the special token overwrites the corpus entry, and index 0 is left to no token.
\<close>

theorem vocab_contiguous_counterexample:
  "ran (build_vocab [''[PAD]''] [''[PAD]'', ''a''])
     \<noteq> {0..<card (dom (build_vocab [''[PAD]''] [''[PAD]'', ''a'']))}"
proof -
  have v: "build_vocab [''[PAD]''] [''[PAD]'', ''a''] = [''a'' \<mapsto> 1, ''[PAD]'' \<mapsto> 2]"
    by (simp add: build_vocab_def corpus_def fun_eq_iff)
  have "0 \<notin> ran [''a'' \<mapsto> 1::nat, ''[PAD]'' \<mapsto> 2]"
    by (auto simp: ran_def)
  moreover have "card (dom [''a'' \<mapsto> 1::nat, ''[PAD]'' \<mapsto> 2]) = 2" by simp
  ultimately show ?thesis unfolding v by auto
qed


theorem vocab_indices_witness:
  "distinct [''[PAD]'', ''[UNK]'']
   \<and> set [''b'', ''a'', ''b''] \<inter> set [''[PAD]'', ''[UNK]''] = {}
   \<and> build_vocab [''[PAD]'', ''[UNK]''] [''b'', ''a'', ''b''] ''[UNK]'' = Some 3
   \<and> build_vocab [''[PAD]'', ''[UNK]''] [''b'', ''a'', ''b''] ''b'' = Some 1
   \<and> ran (build_vocab [''[PAD]'', ''[UNK]''] [''b'', ''a'', ''b'']) = {0..<4}"
proof -
  let ?S = "[''[PAD]'', ''[UNK]'']" and ?W = "[''b'', ''a'', ''b'']"
  have d: "distinct ?S" by simp
  have e: "set ?W \<inter> set ?S = {}" by simp
  have c: "card (set ?W) = 2" by (simp add: card_insert_if)
  have s: "corpus ?W = [''a'', ''b'']" by (simp add: corpus_def)
  note t = vocab_indices[OF d, of ?W]
  have t2: "dom (build_vocab ?S ?W) = set ?W \<union> set ?S" using t by (rule conjunct1[OF conjunct2])
  have t3: "\<forall>i<length ?S. build_vocab ?S ?W (?S ! i) = Some (card (set ?W) + i)"
    using t by (rule conjunct1[OF conjunct2[OF conjunct2]])
  have t4: "\<forall>i<card (set ?W). corpus ?W ! i \<notin> set ?S \<longrightarrow> build_vocab ?S ?W (corpus ?W ! i) = Some i"
    using t by (rule conjunct1[OF conjunct2[OF conjunct2[OF conjunct2]]])
  have t6: "set ?W \<inter> set ?S = {} \<longrightarrow> ran (build_vocab ?S ?W) = {0..<card (dom (build_vocab ?S ?W))}"
    using t by (rule conjunct2[OF conjunct2[OF conjunct2[OF conjunct2[OF conjunct2]]]])
  have "build_vocab ?S ?W (?S ! 1) = Some (card (set ?W) + 1)"
    using t3 by (rule allE[where x = 1]) simp
  then have a: "build_vocab ?S ?W ''[UNK]'' = Some 3" unfolding c by simp
  have "corpus ?W ! 1 \<notin> set ?S \<longrightarrow> build_vocab ?S ?W (corpus ?W ! 1) = Some 1"
    using t4 unfolding c by (rule allE[where x = 1]) simp
  then have b: "build_vocab ?S ?W ''b'' = Some 1" unfolding s by simp
  have "card (dom (build_vocab ?S ?W)) = 4" unfolding t2 by (simp add: card_insert_if)
  then have r: "ran (build_vocab ?S ?W) = {0..<4}" using t6 e by simp
  show ?thesis using d e a b r by blast
qed

section \<open>The video id\<close>

lemma for_each_inv:
  assumes "for_each xs body s = Inr s'" "P s"
    and "\<And>x t t'. x \<in> set xs \<Longrightarrow> P t \<Longrightarrow> body x t = Inr t' \<Longrightarrow> P t'"
  shows "P s'"
  using assms
proof (induction xs arbitrary: s)
  case Nil
  then show ?case by simp
next
  case (Cons x xs)
  from Cons.prems(1) obtain t where t: "body x s = Inr t" "for_each xs body t = Inr s'"
    by (auto split: sum.splits)
  have "P t" using Cons.prems(3)[of x s t] Cons.prems(2) t(1) by simp
  then show ?case using Cons.IH[OF t(2)] Cons.prems(3) by (meson list.set_intros(2))
qed

lemma for_each_all_ok:
  assumes "for_each xs body s = Inr s'" "x \<in> set xs"
  shows "\<exists>t t'. body x t = Inr t'"
  using assms
proof (induction xs arbitrary: s)
  case Nil
  then show ?case by simp
next
  case (Cons y ys)
  from Cons.prems(1) obtain t where t: "body y s = Inr t" "for_each ys body t = Inr s'"
    by (auto split: sum.splits)
  show ?case
  proof (cases "x = y")
    case True
    then show ?thesis using t(1) by blast
  next
    case False
    then show ?thesis using Cons.IH[OF t(2)] Cons.prems(2) by simp
  qed
qed

lemma dot_star_close_iff:
  "dot_star_close cs \<longleftrightarrow> (\<exists>mid post. cs = mid @ CHR '']'' # post \<and> newline \<notin> set mid)"
proof (induction cs)
  case Nil
  then show ?case by simp
next
  case (Cons c cs)
  show ?case
  proof (cases "c = CHR '']''")
    case True
    then have "c # cs = [] @ CHR '']'' # cs \<and> newline \<notin> set []" by simp
    then show ?thesis using True by (metis dot_star_close.simps(2))
  next
    case False
    show ?thesis
    proof (cases "c = newline")
      case True
      have "\<not> (\<exists>mid post. c # cs = mid @ CHR '']'' # post \<and> newline \<notin> set mid)"
      proof
        assume "\<exists>mid post. c # cs = mid @ CHR '']'' # post \<and> newline \<notin> set mid"
        then obtain mid post where m: "c # cs = mid @ CHR '']'' # post" "newline \<notin> set mid" by blast
        then show False using True False by (cases mid) auto
      qed
      then show ?thesis using True False by simp
    next
      case nl: False
      have "(\<exists>mid post. c # cs = mid @ CHR '']'' # post \<and> newline \<notin> set mid)
            \<longleftrightarrow> (\<exists>mid post. cs = mid @ CHR '']'' # post \<and> newline \<notin> set mid)"
      proof
        assume "\<exists>mid post. c # cs = mid @ CHR '']'' # post \<and> newline \<notin> set mid"
        then obtain mid post where m: "c # cs = mid @ CHR '']'' # post" "newline \<notin> set mid" by blast
        then obtain mid' where "mid = c # mid'" using False by (cases mid) auto
        then show "\<exists>mid post. cs = mid @ CHR '']'' # post \<and> newline \<notin> set mid" using m by auto
      next
        assume "\<exists>mid post. cs = mid @ CHR '']'' # post \<and> newline \<notin> set mid"
        then obtain mid post where m: "cs = mid @ CHR '']'' # post" "newline \<notin> set mid" by blast
        then have "c # cs = (c # mid) @ CHR '']'' # post \<and> newline \<notin> set (c # mid)" using nl by auto
        then show "\<exists>mid post. c # cs = mid @ CHR '']'' # post \<and> newline \<notin> set mid" by blast
      qed
      then show ?thesis using Cons.IH False nl by simp
    qed
  qed
qed

lemma block_at_Cons:
  "block_at (c # cs) \<longleftrightarrow> (c \<noteq> newline \<and> block_at cs) \<or> (c = CHR ''['' \<and> dot_star_close cs)"
proof
  assume "block_at (c # cs)"
  then obtain g mid post where m: "c # cs = g @ CHR ''['' # mid @ CHR '']'' # post"
    "newline \<notin> set g" "newline \<notin> set mid" unfolding block_at_def by blast
  show "(c \<noteq> newline \<and> block_at cs) \<or> (c = CHR ''['' \<and> dot_star_close cs)"
  proof (cases g)
    case Nil
    then show ?thesis using m dot_star_close_iff by auto
  next
    case (Cons x g')
    then have "c \<noteq> newline" "cs = g' @ CHR ''['' # mid @ CHR '']'' # post" "newline \<notin> set g'"
      using m by auto
    then show ?thesis using m(3) unfolding block_at_def by blast
  qed
next
  assume "(c \<noteq> newline \<and> block_at cs) \<or> (c = CHR ''['' \<and> dot_star_close cs)"
  then show "block_at (c # cs)"
  proof
    assume a: "c \<noteq> newline \<and> block_at cs"
    then obtain g mid post where m: "cs = g @ CHR ''['' # mid @ CHR '']'' # post"
      "newline \<notin> set g" "newline \<notin> set mid" unfolding block_at_def by blast
    then have "c # cs = (c # g) @ CHR ''['' # mid @ CHR '']'' # post \<and> newline \<notin> set (c # g)"
      using a by auto
    then show ?thesis using m(3) unfolding block_at_def by blast
  next
    assume a: "c = CHR ''['' \<and> dot_star_close cs"
    then obtain mid post where "cs = mid @ CHR '']'' # post" "newline \<notin> set mid"
      using dot_star_close_iff by blast
    then have "c # cs = [] @ CHR ''['' # mid @ CHR '']'' # post \<and> newline \<notin> set [] \<and> newline \<notin> set mid"
      using a by simp
    then show ?thesis unfolding block_at_def by blast
  qed
qed

lemma match_here_iff: "match_here s \<noteq> None \<longleftrightarrow> block_at s"
proof (induction s)
  case Nil
  then show ?case by (simp add: block_at_def)
next
  case (Cons c cs)
  then show ?case by (auto simp: block_at_Cons split: option.splits)
qed

lemma match_here_group:
  "match_here s = Some g \<Longrightarrow>
     newline \<notin> set g \<and> (\<exists>mid post. s = g @ CHR ''['' # mid @ CHR '']'' # post \<and> newline \<notin> set mid)"
proof (induction s arbitrary: g)
  case Nil
  then show ?case by simp
next
  case (Cons c cs)
  show ?case
  proof (cases "c \<noteq> newline \<and> match_here cs \<noteq> None")
    case True
    then obtain g' where g': "match_here cs = Some g'" by auto
    then have "g = c # g'" using Cons.prems True by simp
    then show ?thesis using Cons.IH[OF g'] True by auto
  next
    case False
    then have "g = [] \<and> c = CHR ''['' \<and> dot_star_close cs"
      using Cons.prems by (auto split: option.splits if_splits)
    then show ?thesis using dot_star_close_iff by auto
  qed
qed

lemma has_block_Cons: "has_block (c # cs) \<longleftrightarrow> block_at (c # cs) \<or> has_block cs"
proof
  assume "has_block (c # cs)"
  then obtain pre mid post where m: "c # cs = pre @ CHR ''['' # mid @ CHR '']'' # post" "newline \<notin> set mid"
    unfolding has_block_def by blast
  show "block_at (c # cs) \<or> has_block cs"
  proof (cases pre)
    case Nil
    then have "c # cs = [] @ CHR ''['' # mid @ CHR '']'' # post \<and> newline \<notin> set []" using m by simp
    then show ?thesis using m(2) unfolding block_at_def by blast
  next
    case (Cons x pre')
    then have "cs = pre' @ CHR ''['' # mid @ CHR '']'' # post" using m by simp
    then show ?thesis using m(2) unfolding has_block_def by blast
  qed
next
  assume "block_at (c # cs) \<or> has_block cs"
  then show "has_block (c # cs)"
  proof
    assume "block_at (c # cs)"
    then show ?thesis unfolding block_at_def has_block_def by blast
  next
    assume "has_block cs"
    then obtain pre mid post where "cs = pre @ CHR ''['' # mid @ CHR '']'' # post" "newline \<notin> set mid"
      unfolding has_block_def by blast
    then have "c # cs = (c # pre) @ CHR ''['' # mid @ CHR '']'' # post \<and> newline \<notin> set mid" by simp
    then show ?thesis unfolding has_block_def by blast
  qed
qed

lemma re_search_iff: "re_search s \<noteq> None \<longleftrightarrow> has_block s"
proof (induction s)
  case Nil
  then show ?case by (simp add: has_block_def)
next
  case (Cons c cs)
  have "re_search (c # cs) \<noteq> None \<longleftrightarrow> match_here (c # cs) \<noteq> None \<or> re_search cs \<noteq> None"
    by (auto split: option.splits)
  then show ?case using Cons.IH match_here_iff[of "c # cs"] has_block_Cons[of c cs] by simp
qed

lemma clean_segment_no_match:
  "re_search (fst sl) = None \<Longrightarrow> clean_segment tk ds d a sl st = Inl AttributeError"
  by (simp add: clean_segment_def check_segment_def)

lemma for_each_fails:
  assumes "x \<in> set xs" "\<And>t. \<exists>e. body x t = Inl e"
  shows "\<exists>e. for_each xs body s = Inl e"
proof (cases "for_each xs body s")
  case (Inl e)
  then show ?thesis by blast
next
  case (Inr s')
  then obtain t t' where "body x t = Inr t'" using for_each_all_ok[OF Inr assms(1)] by blast
  then show ?thesis using assms(2)[of t] by auto
qed

text \<open>
  C10. The search finds no match exactly when the segment id holds no \<open>[\<close> that is
  followed, on the same line, by a \<open>]\<close>; then \<open>.group(1)\<close> is called on \<open>None\<close>:
  the iteration raises \<open>AttributeError\<close>, and so does every run of
  \<open>clean_split_dataset\<close> over labels that hold such a segment id.
\<close>

theorem video_id_needs_block:
  "(re_search seg = None \<longleftrightarrow>
      \<not> (\<exists>pre mid post. seg = pre @ CHR ''['' # mid @ CHR '']'' # post \<and> newline \<notin> set mid))
   \<and> (re_search seg = None \<longrightarrow> clean_segment tk ds d a (seg, lab) st = Inl AttributeError)
   \<and> (re_search seg = None \<and> (seg, lab) \<in> set (labels d) \<longrightarrow>
        (\<exists>e. clean_split_dataset k tk d dataset_name a = Inl e))"
proof -
  have a: "re_search seg = None \<longleftrightarrow>
      \<not> (\<exists>pre mid post. seg = pre @ CHR ''['' # mid @ CHR '']'' # post \<and> newline \<notin> set mid)"
    using re_search_iff[of seg] unfolding has_block_def by blast
  have b: "clean_segment tk ds d a (seg, lab) st = Inl AttributeError" if "re_search seg = None" for st ds
    using that by (simp add: clean_segment_no_match)
  have c: "\<exists>e. clean_split_dataset k tk d dataset_name a = Inl e"
    if n: "re_search seg = None" and m: "(seg, lab) \<in> set (labels d)"
  proof (cases "select_dataset k dataset_name")
    case (Inl e)
    then show ?thesis by (simp add: clean_split_dataset_def)
  next
    case (Inr ds')
    have "\<exists>e. for_each (labels d) (clean_segment tk ds' d a) init_state = Inl e"
      using m b[OF n] by (intro for_each_fails[of "(seg, lab)"]) auto
    then show ?thesis using Inr by (auto simp: clean_split_dataset_def clean_segments_def)
  qed
  show ?thesis using a b c by blast
qed

theorem video_id_needs_block_witness:
  "re_search ''v4'' = None
   \<and> clean_segment sample_tokens sample_folds (sample_data [(''v1[0]'', Fin 1), (''v4'', Fin 1)])
        default_args (''v4'', Fin 1) init_state = Inl AttributeError
   \<and> (\<exists>e. clean_split_dataset sample_sdk sample_tokens
              (sample_data [(''v1[0]'', Fin 1), (''v4'', Fin 1)]) ''mosi'' default_args = Inl e)"
proof -
  have n: "re_search ''v4'' = None" by code_simp
  have m: "(''v4'', Fin 1) \<in> set (labels (sample_data [(''v1[0]'', Fin 1), (''v4'', Fin 1)]))"
    by (simp add: sample_data_def)
  show ?thesis
    using n m video_id_needs_block[of "''v4''" sample_tokens sample_folds
        "sample_data [(''v1[0]'', Fin 1), (''v4'', Fin 1)]" default_args "Fin 1" init_state
        sample_sdk "''mosi''"]
    by blast
qed

section \<open>Pause marking and the split cache\<close>

text \<open>
  C3. On the sample segment \<open>v1[0]\<close> (words \<open>hi\<close>, \<open>sp\<close>, \<open>there\<close>) with the default
  arguments, the branch for \<open>remove_pauses = False\<close> reaches \<open>append\<close> on the text
  array at the first word that is not a pause, and the run ends in \<open>AttributeError\<close>.
\<close>

theorem keep_pauses_raises:
  "clean_split_dataset sample_sdk sample_tokens (sample_data [(''v1[0]'', Fin 1)])
     ''mosi'' default_args = Inl AttributeError"
  by code_simp

lemma load_splits_hit:
  "files fs c = Some (Pickled v) \<Longrightarrow> load_splits k tk bp dn a (Some c) fs = (Inr v, fs)"
  by (simp add: load_splits_def try_cache_def pickle_load_def)

lemma load_splits_other_error:
  "pickle_load fs c = Inl e \<Longrightarrow> e \<noteq> FileNotFoundError \<Longrightarrow>
   load_splits k tk bp dn a (Some c) fs = (Inl e, fs)"
  by (simp add: load_splits_def try_cache_def)

lemma pickle_load_cases:
  "pickle_load fs c = Inl e \<Longrightarrow>
     (e = FileNotFoundError \<and> files fs c = None) \<or> (e = UnpicklingError \<and> files fs c = Some Corrupt)"
  by (auto simp: pickle_load_def split: option.splits cache_file.splits)

lemma load_splits_miss:
  "files fs c = None \<Longrightarrow>
   load_splits k tk bp dn a (Some c) fs =
     (case fst (load_splits k tk bp dn a None fs) of
        Inl e \<Rightarrow> (Inl e, fs)
      | Inr r \<Rightarrow> (case pickle_dump r c fs of Inl e \<Rightarrow> (Inl e, fs) | Inr fs' \<Rightarrow> (Inr r, fs')))"
  by (auto simp: load_splits_def try_cache_def pickle_load_def Let_def split: sum.splits prod.splits)

text \<open>
  C9. When the cache path holds a file, \<open>load_splits\<close> returns what loading it gives,
  whatever the other arguments are: the pickled value, or the error of a file that does
  not unpickle. Only an absent file (\<open>FileNotFoundError\<close>) leads to the computation.
\<close>

theorem cache_hit_verbatim:
  "(files fs c \<noteq> None \<longrightarrow>
      load_splits k tk bp dn a (Some c) fs = load_splits k' tk' bp' dn' a' (Some c) fs)
   \<and> (files fs c = Some (Pickled v) \<longrightarrow> load_splits k tk bp dn a (Some c) fs = (Inr v, fs))
   \<and> (pickle_load fs c = Inl e \<and> e \<noteq> FileNotFoundError \<longrightarrow>
        load_splits k tk bp dn a (Some c) fs = (Inl e, fs))
   \<and> (pickle_load fs c = Inl FileNotFoundError \<longrightarrow>
        files fs c = None \<and>
        load_splits k tk bp dn a (Some c) fs =
          (case fst (load_splits k tk bp dn a None fs) of
             Inl e \<Rightarrow> (Inl e, fs)
           | Inr r \<Rightarrow> (case pickle_dump r c fs of Inl e \<Rightarrow> (Inl e, fs) | Inr fs' \<Rightarrow> (Inr r, fs'))))"
proof -
  have 1: "load_splits k tk bp dn a (Some c) fs = load_splits k' tk' bp' dn' a' (Some c) fs"
    if "files fs c \<noteq> None"
  proof -
    from that obtain f where f: "files fs c = Some f" by auto
    show ?thesis
    proof (cases f)
      case (Pickled w)
      then show ?thesis using f by (simp add: load_splits_hit)
    next
      case Corrupt
      then have "pickle_load fs c = Inl UnpicklingError" using f by (simp add: pickle_load_def)
      then show ?thesis by (simp add: load_splits_other_error)
    qed
  qed
  have 4: "files fs c = None" if "pickle_load fs c = Inl FileNotFoundError"
    using pickle_load_cases[OF that] by auto
  have 5: "load_splits k tk bp dn a (Some c) fs =
          (case fst (load_splits k tk bp dn a None fs) of
             Inl e \<Rightarrow> (Inl e, fs)
           | Inr r \<Rightarrow> (case pickle_dump r c fs of Inl e \<Rightarrow> (Inl e, fs) | Inr fs' \<Rightarrow> (Inr r, fs')))"
    if "pickle_load fs c = Inl FileNotFoundError"
    using 4[OF that] by (rule load_splits_miss)
  show ?thesis
  proof (intro conjI impI)
    show "load_splits k tk bp dn a (Some c) fs = load_splits k' tk' bp' dn' a' (Some c) fs"
      if "files fs c \<noteq> None" using that by (rule 1)
    show "load_splits k tk bp dn a (Some c) fs = (Inr v, fs)" if "files fs c = Some (Pickled v)"
      using that by (rule load_splits_hit)
    show "load_splits k tk bp dn a (Some c) fs = (Inl e, fs)"
      if "pickle_load fs c = Inl e \<and> e \<noteq> FileNotFoundError"
      using that load_splits_other_error by blast
    show "files fs c = None" if "pickle_load fs c = Inl FileNotFoundError"
      using that by (rule 4)
    show "load_splits k tk bp dn a (Some c) fs =
          (case fst (load_splits k tk bp dn a None fs) of
             Inl e \<Rightarrow> (Inl e, fs)
           | Inr r \<Rightarrow> (case pickle_dump r c fs of Inl e \<Rightarrow> (Inl e, fs) | Inr fs' \<Rightarrow> (Inr r, fs')))"
      if "pickle_load fs c = Inl FileNotFoundError" using that by (rule 5)
  qed
qed

theorem cache_hit_verbatim_witness:
  "load_splits sample_sdk sample_tokens ''data'' ''mosi'' default_args (Some ''cache.p'') hit_fs
     = load_splits sample_sdk sample_tokens ''other'' ''nonesuch''
         (default_args\<lparr>remove_pauses := True, max_length := 5\<rparr>) (Some ''cache.p'') hit_fs
   \<and> load_splits sample_sdk sample_tokens ''data'' ''mosi'' default_args (Some ''cache.p'') hit_fs
       = (Inr sample_splits, hit_fs)
   \<and> load_splits sample_sdk sample_tokens ''data'' ''mosi'' default_args (Some ''bad.p'') hit_fs
       = (Inl UnpicklingError, hit_fs)
   \<and> files hit_fs ''absent.p'' = None"
proof -
  have h1: "files hit_fs ''cache.p'' \<noteq> None" by (simp add: hit_fs_def)
  have h2: "files hit_fs ''cache.p'' = Some (Pickled sample_splits)" by (simp add: hit_fs_def)
  have h3: "pickle_load hit_fs ''bad.p'' = Inl UnpicklingError \<and> UnpicklingError \<noteq> FileNotFoundError"
    by (simp add: hit_fs_def pickle_load_def)
  have h4: "pickle_load hit_fs ''absent.p'' = Inl FileNotFoundError"
    by (simp add: hit_fs_def pickle_load_def)
  have a: "load_splits sample_sdk sample_tokens ''data'' ''mosi'' default_args (Some ''cache.p'') hit_fs
     = load_splits sample_sdk sample_tokens ''other'' ''nonesuch''
         (default_args\<lparr>remove_pauses := True, max_length := 5\<rparr>) (Some ''cache.p'') hit_fs"
    using h1 cache_hit_verbatim[of hit_fs "''cache.p''" sample_sdk sample_tokens "''data''" "''mosi''"
        default_args sample_sdk sample_tokens "''other''" "''nonesuch''"
        "default_args\<lparr>remove_pauses := True, max_length := 5\<rparr>"]
    by blast
  have b: "load_splits sample_sdk sample_tokens ''data'' ''mosi'' default_args (Some ''cache.p'') hit_fs
       = (Inr sample_splits, hit_fs)"
    using h2 cache_hit_verbatim[of hit_fs "''cache.p''" sample_sdk sample_tokens "''data''" "''mosi''"
        default_args _ _ _ _ _ sample_splits]
    by blast
  have c: "load_splits sample_sdk sample_tokens ''data'' ''mosi'' default_args (Some ''bad.p'') hit_fs
       = (Inl UnpicklingError, hit_fs)"
    using h3 cache_hit_verbatim[of hit_fs "''bad.p''" sample_sdk sample_tokens "''data''" "''mosi''"
        default_args _ _ _ _ _ _ UnpicklingError]
    by blast
  have d: "files hit_fs ''absent.p'' = None"
    using h4 cache_hit_verbatim[of hit_fs "''absent.p''" sample_sdk sample_tokens "''data''" "''mosi''"
        default_args]
    by blast
  show ?thesis using a b c d by blast
qed

lemma load_splits_none_fs: "snd (load_splits k tk bp dn a None fs) = fs"
  by (auto simp: load_splits_def try_cache_def Let_def split: sum.splits prod.splits)

lemma pickle_roundtrip: "pickle_dump v c fs = Inr fs' \<Longrightarrow> pickle_load fs' c = Inr v"
  by (auto simp: pickle_dump_def pickle_load_def split: if_splits)









section \<open>The segment loop: shape check and dropped counter\<close>

lemma assign_split_fields:
  "num_drop (assign_split ds r st) = num_drop st"
  "filter is_shape_warning (warnings (assign_split ds r st)) = filter is_shape_warning (warnings st)"
  "emitted (assign_split ds r st) \<subseteq> insert r (emitted st)"
  by (auto simp: assign_split_def emitted_def)

lemma clean_segment_cases:
  assumes "clean_segment tk ds d a sl st = Inr st'"
  shows "(check_segment d a sl = Inr Neutral \<and> st' = st)
    \<or> (\<exists>vid shapes. check_segment d a sl = Inr (BadShape vid shapes)
          \<and> st' = st\<lparr>num_drop := Some 1, warnings := warnings st @ [ShapeMismatch vid shapes]\<rparr>)
    \<or> (\<exists>vid lab ms ms1 ms2. check_segment d a sl = Inr (Passed vid lab ms)
          \<and> clean_mods tk a ms = Inr ms1 \<and> finish_mods tk a ms1 = Inr ms2
          \<and> st' = assign_split ds \<lparr>mods_of = ms2, video_id = vid, segment_id = fst sl, label = lab\<rparr>
                     (st\<lparr>num_drop := Some 0\<rparr>))"
  using assms unfolding clean_segment_def
  by (auto split: sum.splits checked.splits)

lemma clean_segment_shape_warnings:
  assumes "clean_segment tk ds d a sl st = Inr st'"
  shows "filter is_shape_warning (warnings st')
           = filter is_shape_warning (warnings st) @ shape_warning (check_segment d a sl)"
  using clean_segment_cases[OF assms] by (auto simp: assign_split_fields)

lemma clean_segment_num_drop:
  assumes "clean_segment tk ds d a sl st = Inr st'"
  shows "num_drop st' = (if check_segment d a sl = Inr Neutral then num_drop st
                          else Some (drops_of (check_segment d a sl)))"
  using clean_segment_cases[OF assms] by (auto simp: assign_split_fields)

lemma clean_segment_emitted:
  assumes "clean_segment tk ds d a sl st = Inr st'" "r \<in> emitted st'"
  shows "r \<in> emitted st \<or> origin tk d a sl r"
proof -
  from clean_segment_cases[OF assms(1)] show ?thesis
  proof (elim disjE exE conjE)
    assume "st' = st" then show ?thesis using assms(2) by simp
  next
    fix vid shapes
    assume "st' = st\<lparr>num_drop := Some 1, warnings := warnings st @ [ShapeMismatch vid shapes]\<rparr>"
    then show ?thesis using assms(2) by (simp add: emitted_def)
  next
    fix vid lab ms ms1 ms2
    assume c: "check_segment d a sl = Inr (Passed vid lab ms)" "clean_mods tk a ms = Inr ms1"
      "finish_mods tk a ms1 = Inr ms2"
      and s: "st' = assign_split ds \<lparr>mods_of = ms2, video_id = vid, segment_id = fst sl, label = lab\<rparr>
                     (st\<lparr>num_drop := Some 0\<rparr>)"
    have "emitted st' \<subseteq> insert \<lparr>mods_of = ms2, video_id = vid, segment_id = fst sl, label = lab\<rparr>
            (emitted (st\<lparr>num_drop := Some 0\<rparr>))"
      unfolding s by (rule assign_split_fields)
    moreover have "emitted (st\<lparr>num_drop := Some 0\<rparr>) = emitted st" by (simp add: emitted_def)
    ultimately have "r = \<lparr>mods_of = ms2, video_id = vid, segment_id = fst sl, label = lab\<rparr> \<or> r \<in> emitted st"
      using assms(2) by auto
    then show ?thesis using c unfolding origin_def by blast
  qed
qed

lemma loop_emitted:
  assumes "for_each segs (clean_segment tk ds d a) st = Inr st'" "r \<in> emitted st'"
  shows "r \<in> emitted st \<or> (\<exists>sl\<in>set segs. origin tk d a sl r)"
  using assms
proof (induction segs arbitrary: st)
  case Nil
  then show ?case by simp
next
  case (Cons sl segs)
  from Cons.prems(1) obtain t where t: "clean_segment tk ds d a sl st = Inr t"
    "for_each segs (clean_segment tk ds d a) t = Inr st'" by (auto split: sum.splits)
  from Cons.IH[OF t(2) Cons.prems(2)] show ?case
  proof
    assume "r \<in> emitted t"
    then show ?thesis using clean_segment_emitted[OF t(1)] by auto
  next
    assume "\<exists>sl\<in>set segs. origin tk d a sl r"
    then show ?thesis by auto
  qed
qed

lemma loop_shape_warnings:
  assumes "for_each segs (clean_segment tk ds d a) st = Inr st'"
  shows "filter is_shape_warning (warnings st')
           = filter is_shape_warning (warnings st)
               @ concat (map (\<lambda>sl. shape_warning (check_segment d a sl)) segs)"
  using assms
proof (induction segs arbitrary: st)
  case Nil
  then show ?case by simp
next
  case (Cons sl segs)
  from Cons.prems(1) obtain t where t: "clean_segment tk ds d a sl st = Inr t"
    "for_each segs (clean_segment tk ds d a) t = Inr st'" by (auto split: sum.splits)
  show ?case using Cons.IH[OF t(2)] clean_segment_shape_warnings[OF t(1)] by simp
qed

lemma loop_num_drop:
  assumes "for_each segs (clean_segment tk ds d a) st = Inr st'"
  shows "num_drop st' =
     (case filter (\<lambda>c. c \<noteq> Inr Neutral) (map (check_segment d a) segs) of
        [] \<Rightarrow> num_drop st
      | c # cs \<Rightarrow> Some (drops_of (last (c # cs))))"
  using assms
proof (induction segs arbitrary: st)
  case Nil
  then show ?case by simp
next
  case (Cons sl segs)
  from Cons.prems(1) obtain t where t: "clean_segment tk ds d a sl st = Inr t"
    "for_each segs (clean_segment tk ds d a) t = Inr st'" by (auto split: sum.splits)
  show ?case using Cons.IH[OF t(2)] clean_segment_num_drop[OF t(1)]
    by (auto split: list.splits)
qed

lemma gather_loop:
  assumes "for_each ms
       (\<lambda>k acc. case features d k seg of
                  None \<Rightarrow> Inl KeyError
                | Some f \<Rightarrow> Inr (AList.update k (NdArray (map Row f)) acc))
       acc0 = Inr g"
  shows "(\<forall>m\<in>set ms. features d m seg \<noteq> None)
    \<and> (\<forall>m. map_of g m = (if m \<in> set ms
                           then map_option (\<lambda>f. NdArray (map Row f)) (features d m seg)
                           else map_of acc0 m))
    \<and> fst ` set g = fst ` set acc0 \<union> set ms
    \<and> (distinct (map fst acc0) \<longrightarrow> distinct (map fst g))"
  using assms
proof (induction ms arbitrary: acc0)
  case Nil
  then show ?case by simp
next
  case (Cons k ms)
  from Cons.prems obtain f where f: "features d k seg = Some f"
    by (auto split: option.splits)
  let ?acc = "AList.update k (NdArray (map Row f)) acc0"
  have rest: "for_each ms
       (\<lambda>k acc. case features d k seg of
                  None \<Rightarrow> Inl KeyError
                | Some f \<Rightarrow> Inr (AList.update k (NdArray (map Row f)) acc))
       ?acc = Inr g"
    using Cons.prems f by simp
  note ih = Cons.IH[OF rest]
  have 1: "\<forall>m\<in>set (k # ms). features d m seg \<noteq> None" using ih f by simp
  have 2: "\<forall>m. map_of g m = (if m \<in> set (k # ms)
                           then map_option (\<lambda>f. NdArray (map Row f)) (features d m seg)
                           else map_of acc0 m)"
    using ih f by (auto simp: update_conv')
  have 3: "fst ` set g = fst ` set acc0 \<union> set (k # ms)"
    using ih by (auto simp: dom_update)
  have 4: "distinct (map fst acc0) \<longrightarrow> distinct (map fst g)"
    using ih by (simp add: distinct_update)
  show ?case using 1 2 3 4 by blast
qed

lemma gather_props:
  assumes "gather d seg ms = Inr g"
  shows "\<forall>m\<in>set ms. features d m seg \<noteq> None"
    and "\<forall>m. map_of g m = (if m \<in> set ms
                           then map_option (\<lambda>f. NdArray (map Row f)) (features d m seg)
                           else None)"
    and "fst ` set g = set ms"
    and "distinct (map fst g)"
  using gather_loop[OF assms[unfolded gather_def]] by simp_all

lemma gather_total:
  assumes "\<forall>m\<in>set ms. features d m seg \<noteq> None"
  shows "\<exists>g. for_each ms
       (\<lambda>k acc. case features d k seg of
                  None \<Rightarrow> Inl KeyError
                | Some f \<Rightarrow> Inr (AList.update k (NdArray (map Row f)) acc))
       acc0 = Inr g"
  using assms by (induction ms arbitrary: acc0) auto

lemma remdups_le1: "length (remdups xs) \<le> 1 \<longleftrightarrow> (\<forall>x\<in>set xs. \<forall>y\<in>set xs. x = y)"
proof -
  have "length (remdups xs) = card (set xs)" by (simp add: length_remdups_card_conv)
  moreover have "card (set xs) \<le> Suc 0 \<longleftrightarrow> (\<forall>x\<in>set xs. \<forall>y\<in>set xs. x = y)"
    by (rule card_le_Suc0_iff_eq) simp
  ultimately show ?thesis by simp
qed

lemma shapes_agree_iff:
  "shapes_agree g \<longleftrightarrow> (\<forall>p\<in>set g. \<forall>q\<in>set g. length (rows (snd p)) = length (rows (snd q)))"
proof -
  have "map snd (mod_shapes g) = map (\<lambda>p. length (rows (snd p))) g"
    by (simp add: mod_shapes_def split_def)
  then show ?thesis unfolding shapes_agree_def remdups_le1 by auto
qed

lemma map_of_mod_shapes: "map_of (mod_shapes g) m = map_option (\<lambda>v. length (rows v)) (map_of g m)"
  by (induction g) (auto simp: mod_shapes_def)

lemma gather_mismatch:
  assumes g: "gather d seg ms = Inr g"
    and m: "m1 \<in> set ms" "m2 \<in> set ms" "features d m1 seg = Some f1" "features d m2 seg = Some f2"
      "length f1 \<noteq> length f2"
  shows "\<not> shapes_agree g"
proof -
  have "map_of g m1 = Some (NdArray (map Row f1))" "map_of g m2 = Some (NdArray (map Row f2))"
    using gather_props(2)[OF g] m by simp_all
  then have "(m1, NdArray (map Row f1)) \<in> set g" "(m2, NdArray (map Row f2)) \<in> set g"
    by (auto dest: map_of_SomeD)
  then show ?thesis using m(5) unfolding shapes_agree_iff by fastforce
qed

lemma check_segment_mismatch:
  assumes present: "\<forall>m\<in>set (modalities a). features d m seg \<noteq> None"
    and m: "m1 \<in> set (modalities a)" "m2 \<in> set (modalities a)"
      "features d m1 seg = Some f1" "features d m2 seg = Some f2" "length f1 \<noteq> length f2"
    and vid: "re_search seg = Some vid"
  shows "\<exists>g. gather d seg (modalities a) = Inr g \<and> \<not> shapes_agree g
     \<and> check_segment d a (seg, lab) =
         (if remove_neutral a \<and> sign_is_zero (nan_to_num lab) then Inr Neutral
          else Inr (BadShape vid (mod_shapes g)))"
proof -
  obtain g where g: "gather d seg (modalities a) = Inr g"
    using gather_total[OF present, of "[]"] unfolding gather_def by blast
  have "\<not> shapes_agree g" using gather_mismatch[OF g m] .
  then show ?thesis using g vid by (simp add: check_segment_def Let_def)
qed

text \<open>
  C5, as the code has it. Take a segment whose id yields a video id, whose requested
  modalities are all present and two of which differ in length, and which the neutral
  filter does not skip. Its iteration returns normally, leaves the three splits as they
  are, sets the counter to 1 and logs exactly one warning, the shape-mismatch warning with
  the video id and the length of every requested modality. In every run that returns, no
  emitted record carries this segment id, and the shape-mismatch warnings of the run are
  those of the iterations that ended at the shape check, one each, in order.
\<close>

theorem shape_mismatch_drops_segment:
  assumes "\<forall>m\<in>set (modalities a). features d m seg \<noteq> None"
    and "m1 \<in> set (modalities a)" and "m2 \<in> set (modalities a)"
    and "features d m1 seg = Some f1" and "features d m2 seg = Some f2"
    and "length f1 \<noteq> length f2"
    and "re_search seg = Some vid"
    and "\<not> (remove_neutral a \<and> sign_is_zero (nan_to_num lab))"
  shows "(\<exists>shapes.
            clean_segment tk ds d a (seg, lab) st =
              Inr (st\<lparr>num_drop := Some 1, warnings := warnings st @ [ShapeMismatch vid shapes]\<rparr>)
            \<and> fst ` set shapes = set (modalities a)
            \<and> (\<forall>m\<in>set (modalities a).
                  map_option length (features d m seg) = map_of shapes m)
            \<and> shape_warning (check_segment d a (seg, lab)) = [ShapeMismatch vid shapes])
    \<and> (clean_split_dataset k tk d dataset_name a = Inr st' \<longrightarrow>
          (\<forall>r\<in>emitted st'. segment_id r \<noteq> seg)
          \<and> filter is_shape_warning (warnings st') =
              concat (map (\<lambda>sl. shape_warning (check_segment d a sl)) (labels d)))"
proof -
  obtain g where g: "gather d seg (modalities a) = Inr g" "\<not> shapes_agree g"
    and c: "\<And>lab'. check_segment d a (seg, lab') =
         (if remove_neutral a \<and> sign_is_zero (nan_to_num lab') then Inr Neutral
          else Inr (BadShape vid (mod_shapes g)))"
    using check_segment_mismatch[OF assms(1-7)] by (metis sum.inject(2))
  have c1: "check_segment d a (seg, lab) = Inr (BadShape vid (mod_shapes g))"
    using c[of lab] assms(8) by simp
  have s1: "clean_segment tk ds d a (seg, lab) st =
              Inr (st\<lparr>num_drop := Some 1, warnings := warnings st @ [ShapeMismatch vid (mod_shapes g)]\<rparr>)"
    by (simp add: clean_segment_def c1)
  have s2: "fst ` set (mod_shapes g) = set (modalities a)"
    using gather_props(3)[OF g(1)] by (force simp: mod_shapes_def)
  have s3: "\<forall>m\<in>set (modalities a). map_option length (features d m seg) = map_of (mod_shapes g) m"
    using gather_props(2)[OF g(1)] by (auto simp: map_of_mod_shapes map_option.compositionality comp_def)
  have s4: "shape_warning (check_segment d a (seg, lab)) = [ShapeMismatch vid (mod_shapes g)]"
    by (simp add: c1)
  have run: "(\<forall>r\<in>emitted st'. segment_id r \<noteq> seg)
          \<and> filter is_shape_warning (warnings st') =
              concat (map (\<lambda>sl. shape_warning (check_segment d a sl)) (labels d))"
    if r: "clean_split_dataset k tk d dataset_name a = Inr st'"
  proof -
    from r obtain ds' t n where t: "for_each (labels d) (clean_segment tk ds' d a) init_state = Inr t"
      "st' = t\<lparr>warnings := warnings t @ [Dropped n]\<rparr>"
      by (auto simp: clean_split_dataset_def clean_segments_def split: sum.splits option.splits)
    have e: "emitted st' = emitted t" using t(2) by (simp add: emitted_def)
    have "segment_id r \<noteq> seg" if "r \<in> emitted st'" for r
    proof
      assume eq: "segment_id r = seg"
      have "r \<in> emitted init_state \<or> (\<exists>sl\<in>set (labels d). origin tk d a sl r)"
        using loop_emitted[OF t(1)] that e by simp
      then obtain sl where "origin tk d a sl r" by (auto simp: emitted_def init_state_def)
      then obtain vid' lab' ms where "check_segment d a sl = Inr (Passed vid' lab' ms)" "segment_id r = fst sl"
        unfolding origin_def by auto
      then have "check_segment d a (seg, snd sl) = Inr (Passed vid' lab' ms)" using eq by (metis prod.collapse)
      then show False using c[of "snd sl"] by (simp split: if_splits)
    qed
    moreover have "filter is_shape_warning (warnings st') =
              concat (map (\<lambda>sl. shape_warning (check_segment d a sl)) (labels d))"
      using loop_shape_warnings[OF t(1)] t(2) by (simp add: init_state_def)
    ultimately show ?thesis by blast
  qed
  show ?thesis using s1 s2 s3 s4 run by blast
qed

lemma run_pass_mismatch:
  "clean_split_dataset sample_sdk sample_tokens
      (sample_data [(''v1[0]'', Fin 1), (''v3[0]'', Fin 1)]) ''mosi'' sample_args =
   Inr \<lparr>train = [v1_record], dev = [], test = [], num_drop = Some 1,
         warnings = [ShapeMismatch ''v3'' [(Audio, 1), (Text, 2)], Dropped 1]\<rparr>"
  by code_simp

theorem shape_mismatch_drops_segment_witness:
  "clean_split_dataset sample_sdk sample_tokens
      (sample_data [(''v1[0]'', Fin 1), (''v3[0]'', Fin 1)]) ''mosi'' sample_args =
     Inr \<lparr>train = [v1_record], dev = [], test = [], num_drop = Some 1,
           warnings = [ShapeMismatch ''v3'' [(Audio, 1), (Text, 2)], Dropped 1]\<rparr>
   \<and> filter is_shape_warning [ShapeMismatch ''v3'' [(Audio, 1), (Text, 2)], Dropped 1] =
       concat (map (\<lambda>sl. shape_warning
                            (check_segment (sample_data [(''v1[0]'', Fin 1), (''v3[0]'', Fin 1)])
                               sample_args sl))
                 [(''v1[0]'', Fin 1), (''v3[0]'', Fin 1)])
   \<and> (\<exists>shapes. clean_segment sample_tokens sample_folds
                   (sample_data [(''v1[0]'', Fin 1), (''v3[0]'', Fin 1)]) sample_args
                   (''v3[0]'', Fin 1) init_state =
                 Inr (init_state\<lparr>num_drop := Some 1,
                        warnings := warnings init_state @ [ShapeMismatch ''v3'' shapes]\<rparr>))"
proof -
  let ?d = "sample_data [(''v1[0]'', Fin 1), (''v3[0]'', Fin 1)]"
  have h1: "\<forall>m\<in>set (modalities sample_args). features ?d m ''v3[0]'' \<noteq> None"
    by (simp add: sample_args_def default_args_def sample_data_def sample_features_def)
  have h2: "Audio \<in> set (modalities sample_args)" "Text \<in> set (modalities sample_args)"
    by (simp_all add: sample_args_def default_args_def)
  have h3: "features ?d Audio ''v3[0]'' = Some [[F (Fin 9), F (Fin 9)]]"
    "features ?d Text ''v3[0]'' = Some [[B ''a''], [B ''b'']]"
    by (simp_all add: sample_data_def sample_features_def)
  have h4: "length [[F (Fin 9), F (Fin 9)]] \<noteq> length [[B ''a''], [B ''b'']]" by simp
  have h5: "re_search ''v3[0]'' = Some ''v3''" by code_simp
  have h6: "\<not> (remove_neutral sample_args \<and> sign_is_zero (nan_to_num (Fin 1)))"
    by (simp add: sample_args_def default_args_def)
  note t = shape_mismatch_drops_segment[OF h1 h2 h3 h4 h5 h6, of sample_tokens sample_folds init_state
      sample_sdk "''mosi''"
      "\<lparr>train = [v1_record], dev = [], test = [], num_drop = Some 1,
        warnings = [ShapeMismatch ''v3'' [(Audio, 1), (Text, 2)], Dropped 1]\<rparr>"]
  have l: "labels ?d = [(''v1[0]'', Fin 1), (''v3[0]'', Fin 1)]" by (simp add: sample_data_def)
  show ?thesis using t run_pass_mismatch l by auto
qed

text \<open>
  The claim as written fails for a segment that the neutral filter skips: the filter
  runs before the shape check. With \<open>remove_neutral\<close> set, segment \<open>v3[0]\<close> with label
  0 has one audio row and two text rows, and the run logs no shape-mismatch warning.
\<close>

theorem neutral_mismatch_counterexample:
  "map_option length (sample_features Audio ''v3[0]'') = Some 1
   \<and> map_option length (sample_features Text ''v3[0]'') = Some 2
   \<and> clean_split_dataset sample_sdk sample_tokens
        (sample_data [(''v1[0]'', Fin 1), (''v3[0]'', Fin 0)]) ''mosi''
        (sample_args\<lparr>remove_neutral := True\<rparr>) =
       Inr \<lparr>train = [v1_record], dev = [], test = [], num_drop = Some 0,
             warnings = [Dropped 0]\<rparr>"
  by code_simp

lemma check_segment_not_neutral:
  "\<not> remove_neutral a \<Longrightarrow> check_segment d a sl \<noteq> Inr Neutral"
  by (auto simp: check_segment_def Let_def split: option.splits sum.splits)

lemma drops_of_le: "drops_of c \<le> 1"
  by (cases c rule: drops_of.cases) simp_all

text \<open>
  C8, as the code has it. The counter is set to 0 in every iteration that is not
  skipped by the neutral filter, and to 1 when that iteration ends at the shape check. In
  every run that returns, the count logged after the loop is therefore that of the last
  iteration the filter did not skip: 1 if it ended at the shape check, 0 otherwise;
  it is never a total. Without \<open>remove_neutral\<close> that iteration is the final one.
\<close>

theorem dropped_counter_logged:
  assumes "clean_split_dataset k tk d dataset_name a = Inr st'"
  shows "filter (\<lambda>c. c \<noteq> Inr Neutral) (map (check_segment d a) (labels d)) \<noteq> []
    \<and> num_drop st' =
        Some (drops_of (last (filter (\<lambda>c. c \<noteq> Inr Neutral) (map (check_segment d a) (labels d)))))
    \<and> last (warnings st') =
        Dropped (drops_of (last (filter (\<lambda>c. c \<noteq> Inr Neutral) (map (check_segment d a) (labels d)))))
    \<and> drops_of (last (filter (\<lambda>c. c \<noteq> Inr Neutral) (map (check_segment d a) (labels d)))) \<le> 1
    \<and> (\<not> remove_neutral a \<longrightarrow>
          labels d \<noteq> []
          \<and> last (warnings st') = Dropped (drops_of (check_segment d a (last (labels d)))))"
proof -
  let ?cs = "filter (\<lambda>c. c \<noteq> Inr Neutral) (map (check_segment d a) (labels d))"
  from assms obtain ds' t n where t: "for_each (labels d) (clean_segment tk ds' d a) init_state = Inr t"
    "num_drop t = Some n" "st' = t\<lparr>warnings := warnings t @ [Dropped n]\<rparr>"
    by (auto simp: clean_split_dataset_def clean_segments_def split: sum.splits option.splits)
  have nd: "num_drop t = (case ?cs of [] \<Rightarrow> num_drop init_state | c # cs \<Rightarrow> Some (drops_of (last (c # cs))))"
    using loop_num_drop[OF t(1)] .
  have ne: "?cs \<noteq> []"
  proof
    assume "?cs = []"
    then have "num_drop t = None" using nd by (simp add: init_state_def)
    then show False using t(2) by simp
  qed
  then have n: "n = drops_of (last ?cs)" using nd t(2) by (auto split: list.splits)
  have a: "num_drop st' = Some (drops_of (last ?cs))" using t(2,3) n by simp
  have b: "last (warnings st') = Dropped (drops_of (last ?cs))" using t(3) n by simp
  have c: "labels d \<noteq> [] \<and> last (warnings st') = Dropped (drops_of (check_segment d a (last (labels d))))"
    if "\<not> remove_neutral a"
  proof -
    have "?cs = map (check_segment d a) (labels d)"
      using check_segment_not_neutral[OF that] by (simp add: filter_id_conv)
    moreover from this have "labels d \<noteq> []" using ne by auto
    ultimately show ?thesis using b by (simp add: last_map)
  qed
  show ?thesis using ne a b c drops_of_le by blast
qed

lemma run_mismatch_pass:
  "clean_split_dataset sample_sdk sample_tokens
      (sample_data [(''v3[0]'', Fin 1), (''v1[0]'', Fin 1)]) ''mosi'' sample_args =
   Inr \<lparr>train = [v1_record], dev = [], test = [], num_drop = Some 0,
         warnings = [ShapeMismatch ''v3'' [(Audio, 1), (Text, 2)], Dropped 0]\<rparr>"
  by code_simp

theorem dropped_counter_logged_witness:
  "clean_split_dataset sample_sdk sample_tokens
      (sample_data [(''v3[0]'', Fin 1), (''v1[0]'', Fin 1)]) ''mosi'' sample_args =
     Inr \<lparr>train = [v1_record], dev = [], test = [], num_drop = Some 0,
           warnings = [ShapeMismatch ''v3'' [(Audio, 1), (Text, 2)], Dropped 0]\<rparr>
   \<and> \<not> remove_neutral sample_args
   \<and> Dropped 0 =
       Dropped (drops_of (check_segment (sample_data [(''v3[0]'', Fin 1), (''v1[0]'', Fin 1)])
                  sample_args (''v1[0]'', Fin 1)))"
proof -
  have n: "\<not> remove_neutral sample_args" by (simp add: sample_args_def default_args_def)
  have l: "last (labels (sample_data [(''v3[0]'', Fin 1), (''v1[0]'', Fin 1)])) = (''v1[0]'', Fin 1)"
    by (simp add: sample_data_def)
  show ?thesis
    using dropped_counter_logged[OF run_mismatch_pass] run_mismatch_pass n l by simp
qed

text \<open>
  The claim as written fails when the final iteration is skipped by the neutral filter,
  which runs before the counter is reset: the logged count is the one an earlier
  iteration left. Both runs below end with the same skipped segment; the first logs 1,
  the second logs 0.
\<close>

theorem stale_counter_counterexample:
  "clean_split_dataset sample_sdk sample_tokens
      (sample_data [(''v3[0]'', Fin 1), (''v1[0]'', Fin 0)]) ''mosi''
      (sample_args\<lparr>remove_neutral := True\<rparr>) =
     Inr \<lparr>train = [], dev = [], test = [], num_drop = Some 1,
           warnings = [ShapeMismatch ''v3'' [(Audio, 1), (Text, 2)], Dropped 1]\<rparr>
   \<and> clean_split_dataset sample_sdk sample_tokens
      (sample_data [(''v2[0]'', Fin 1), (''v1[0]'', Fin 0)]) ''mosi''
      (sample_args\<lparr>remove_neutral := True\<rparr>) =
     Inr \<lparr>train = [], dev = [\<lparr>mods_of = [(Audio, NdArray []), (Text, PyList [])],
                                video_id = ''v2'', segment_id = ''v2[0]'', label = Fin 1\<rparr>],
           test = [], num_drop = Some 0, warnings = [Dropped 0]\<rparr>
   \<and> check_segment (sample_data [(''v3[0]'', Fin 1), (''v1[0]'', Fin 0)])
        (sample_args\<lparr>remove_neutral := True\<rparr>) (''v1[0]'', Fin 0) = Inr Neutral"
  by code_simp

section \<open>Length normalisation\<close>

lemma modify_Inr:
  assumes "modify f k d = Inr d'"
  shows "\<exists>v v'. map_of d k = Some v \<and> f v = Inr v' \<and> d' = AList.update k v' d"
  using assms by (auto simp: modify_def get_item_def split: option.splits sum.splits)

lemma modify_step:
  assumes "modify f k d = Inr d'"
  shows "map fst d' = map fst d \<and> (\<forall>j. j \<noteq> k \<longrightarrow> map_of d' j = map_of d j)
     \<and> (\<exists>v v'. map_of d k = Some v \<and> f v = Inr v' \<and> map_of d' k = Some v')"
proof -
  from modify_Inr[OF assms] obtain v v' where v: "map_of d k = Some v" "f v = Inr v'"
    "d' = AList.update k v' d" by blast
  have "k \<in> set (map fst d)" using v(1) by (metis map_of_eq_None_iff option.distinct(1) set_map)
  then have "map fst d' = map fst d" using v(3) by (simp add: update_keys)
  then show ?thesis using v by (auto simp: update_conv')
qed

lemma for_each_mods:
  assumes "for_each ms body d = Inr d'" "distinct ms"
    and step: "\<And>m acc acc'. m \<in> set ms \<Longrightarrow> body m acc = Inr acc' \<Longrightarrow>
            map fst acc' = map fst acc \<and> (\<forall>j. j \<noteq> m \<longrightarrow> map_of acc' j = map_of acc j)
            \<and> R m (map_of acc m) (map_of acc' m)"
  shows "map fst d' = map fst d \<and> (\<forall>j. j \<notin> set ms \<longrightarrow> map_of d' j = map_of d j)
     \<and> (\<forall>m\<in>set ms. R m (map_of d m) (map_of d' m))"
  using assms
proof (induction ms arbitrary: d)
  case Nil
  then show ?case by simp
next
  case (Cons m ms)
  from Cons.prems(1) obtain t where t: "body m d = Inr t" "for_each ms body t = Inr d'"
    by (auto split: sum.splits)
  have s: "map fst t = map fst d \<and> (\<forall>j. j \<noteq> m \<longrightarrow> map_of t j = map_of d j)
            \<and> R m (map_of d m) (map_of t m)"
    using Cons.prems(3)[of m d t] t(1) by simp
  have d: "distinct ms" "m \<notin> set ms" using Cons.prems(2) by simp_all
  have ih: "map fst d' = map fst t \<and> (\<forall>j. j \<notin> set ms \<longrightarrow> map_of d' j = map_of t j)
     \<and> (\<forall>m\<in>set ms. R m (map_of t m) (map_of d' m))"
    using Cons.IH[OF t(2) d(1)] Cons.prems(3) by (meson list.set_intros(2))
  have 1: "map fst d' = map fst d" using ih s by simp
  have 2: "\<forall>j. j \<notin> set (m # ms) \<longrightarrow> map_of d' j = map_of d j" using ih s by simp
  have 3: "\<forall>x\<in>set (m # ms). R x (map_of d x) (map_of d' x)"
  proof
    fix x assume x: "x \<in> set (m # ms)"
    show "R x (map_of d x) (map_of d' x)"
    proof (cases "x = m")
      case True
      then have "map_of d' x = map_of t x" using ih d(2) by simp
      then show ?thesis using s True by simp
    next
      case False
      then have "x \<in> set ms" using x by simp
      moreover have "map_of t x = map_of d x" using s False by simp
      ultimately show ?thesis using ih by auto
    qed
  qed
  show ?case using 1 2 3 by blast
qed

lemma nan_to_num_mods_props:
  assumes "nan_to_num_mods ms d = Inr d1" "distinct ms"
  shows "map fst d1 = map fst d"
    and "\<forall>m. map_of d1 m = (if m \<in> set ms \<and> m \<noteq> Text
                              then map_option nan_to_num_seq (map_of d m) else map_of d m)"
proof -
  let ?R = "\<lambda>m x y. (m = Text \<and> y = x) \<or> (m \<noteq> Text \<and> (\<exists>v. x = Some v \<and> y = Some (nan_to_num_seq v)))"
  have st: "map fst acc' = map fst acc \<and> (\<forall>j. j \<noteq> m \<longrightarrow> map_of acc' j = map_of acc j)
            \<and> ?R m (map_of acc m) (map_of acc' m)"
    if "(if m \<noteq> Text then modify (\<lambda>v. Inr (nan_to_num_seq v)) m acc else Inr acc) = Inr acc'"
    for m acc acc'
    using that modify_step[of "\<lambda>v. Inr (nan_to_num_seq v)" m acc acc']
    by (cases "m = Text") auto
  have p: "map fst d1 = map fst d \<and> (\<forall>j. j \<notin> set ms \<longrightarrow> map_of d1 j = map_of d j)
     \<and> (\<forall>m\<in>set ms. ?R m (map_of d m) (map_of d1 m))"
    using assms(1)[unfolded nan_to_num_mods_def] assms(2) st
    by (rule for_each_mods[where R = ?R])
  show "map fst d1 = map fst d" using p by simp
  show "\<forall>m. map_of d1 m = (if m \<in> set ms \<and> m \<noteq> Text
                              then map_option nan_to_num_seq (map_of d m) else map_of d m)"
  proof
    fix m
    show "map_of d1 m = (if m \<in> set ms \<and> m \<noteq> Text
                              then map_option nan_to_num_seq (map_of d m) else map_of d m)"
    proof (cases "m \<in> set ms")
      case True
      then have "?R m (map_of d m) (map_of d1 m)" using p by blast
      then show ?thesis using True by auto
    next
      case False
      then show ?thesis using p by simp
    qed
  qed
qed

lemma asarray_mods_props:
  assumes "asarray_mods ms d = Inr d'" "distinct ms"
  shows "map fst d' = map fst d"
    and "\<forall>m. map_option rows (map_of d' m) = map_option rows (map_of d m)"
proof -
  let ?R = "\<lambda>m x y. (m = Text \<and> y = x) \<or> (m \<noteq> Text \<and> (\<exists>v. x = Some v \<and> y = Some (NdArray (rows v))))"
  have st: "map fst acc' = map fst acc \<and> (\<forall>j. j \<noteq> m \<longrightarrow> map_of acc' j = map_of acc j)
            \<and> ?R m (map_of acc m) (map_of acc' m)"
    if "(if m \<noteq> Text then modify (\<lambda>v. Inr (NdArray (rows v))) m acc else Inr acc) = Inr acc'"
    for m acc acc'
    using that modify_step[of "\<lambda>v. Inr (NdArray (rows v))" m acc acc']
    by (cases "m = Text") auto
  have p: "map fst d' = map fst d \<and> (\<forall>j. j \<notin> set ms \<longrightarrow> map_of d' j = map_of d j)
     \<and> (\<forall>m\<in>set ms. ?R m (map_of d m) (map_of d' m))"
    using assms(1)[unfolded asarray_mods_def] assms(2) st
    by (rule for_each_mods[where R = ?R])
  show "map fst d' = map fst d" using p by simp
  show "\<forall>m. map_option rows (map_of d' m) = map_option rows (map_of d m)"
  proof
    fix m
    show "map_option rows (map_of d' m) = map_option rows (map_of d m)"
    proof (cases "m \<in> set ms")
      case True
      then have "?R m (map_of d m) (map_of d' m)" using p by blast
      then show ?thesis by auto
    next
      case False
      then show ?thesis using p by simp
    qed
  qed
qed

lemma pads_Inr:
  assumes "pads pad m es k = Inr t"
  shows "length t = k \<and> (\<forall>p. pad_entry pad m es = Inr p \<longrightarrow> t = replicate k p)
     \<and> (0 < k \<longrightarrow> (\<exists>p. pad_entry pad m es = Inr p))"
  using assms
proof (induction k arbitrary: t)
  case 0
  then show ?case by simp
next
  case (Suc k)
  from Suc.prems obtain p ps where p: "pad_entry pad m es = Inr p" "pads pad m es k = Inr ps"
    "t = p # ps" by (auto split: sum.splits)
  show ?case using Suc.IH[OF p(2)] p by simp
qed

lemma pads_member:
  assumes "pads pad m es k = Inr t" "e \<in> set t"
  shows "pad_entry pad m es = Inr e"
proof -
  have "0 < k" using pads_Inr[OF assms(1)] assms(2) by (cases k) auto
  then obtain p where "pad_entry pad m es = Inr p" "t = replicate k p"
    using pads_Inr[OF assms(1)] by blast
  then show ?thesis using assms(2) by simp
qed

lemma collect_length: "collect xs = Inr vs \<Longrightarrow> length vs = length xs"
  by (induction xs arbitrary: vs) (auto split: sum.splits)

lemma broadcast_length:
  assumes "broadcast f xs ys = Inr rs"
  shows "length rs = (if length xs = 1 then length ys else length xs)"
  using assms
  by (auto simp: broadcast_def dest!: collect_length split: if_splits)

lemma numpy_add_Inr:
  assumes "numpy_add t es = Inr s"
  shows "\<exists>rs. s = NdArray rs \<and> length rs = (if length t = 1 then length es else length t)"
  using assms broadcast_length[of add_row t es]
  by (auto simp: numpy_add_def split: if_splits sum.splits)

lemma normalize_length_le:
  assumes "normalize_length pad n pf pb m v = Inr v'"
  shows "length (rows v') \<le> n"
proof -
  consider "length (rows v) > n" | "length (rows v) = n" | "length (rows v) < n" by linarith
  then show ?thesis
  proof cases
    case 1
    then show ?thesis using assms by (auto simp: normalize_length_def Let_def)
  next
    case 2
    then show ?thesis using assms by (auto simp: normalize_length_def Let_def)
  next
    case 3
    show ?thesis
    proof (cases pf)
      case True
      then obtain t where t: "pads pad m (rows v) (n - length (rows v)) = Inr t"
        "(case v of PyList x \<Rightarrow> Inr (PyList (t @ rows v)) | NdArray x \<Rightarrow> numpy_add t (rows v)) = Inr v'"
        using assms 3 by (auto simp: normalize_length_def Let_def split: sum.splits)
      have lt: "length t = n - length (rows v)" using pads_Inr[OF t(1)] by simp
      show ?thesis
      proof (cases v)
        case (PyList es)
        then show ?thesis using t(2) lt 3 by auto
      next
        case (NdArray es)
        then have "numpy_add t (rows v) = Inr v'" using t(2) by simp
        from numpy_add_Inr[OF this] show ?thesis using lt 3 by auto
      qed
    next
      case False
      show ?thesis
      proof (cases pb)
        case True
        then obtain t where "pads pad m (rows v) (n - length (rows v)) = Inr t" "v' = PyList (rows v @ t)"
          using assms 3 False by (cases v) (auto simp: normalize_length_def Let_def split: sum.splits)
        then show ?thesis using pads_Inr[of pad m "rows v" "n - length (rows v)" t] 3 by simp
      next
        case pb: False
        then show ?thesis using assms 3 False by (auto simp: normalize_length_def Let_def)
      qed
    qed
  qed
qed

lemma normalize_length_long:
  assumes "normalize_length pad n pf pb m v = Inr v'" "n \<le> length (rows v)"
  shows "rows v' = drop (length (rows v) - n) (rows v)"
  using assms by (auto simp: normalize_length_def Let_def split: if_splits)

lemma normalize_length_plain:
  assumes "normalize_length pad n False False m v = Inr v'" "length (rows v) < n"
  shows "v' = v"
  using assms by (auto simp: normalize_length_def Let_def split: if_splits)

lemma normalize_length_list_len:
  assumes "normalize_length pad n pf pb m (PyList es) = Inr v'"
  shows "length (rows v') = (if n \<le> length es \<or> pf \<or> pb then n else length es)"
proof -
  consider "length es > n" | "length es = n" | "length es < n" by linarith
  then show ?thesis
  proof cases
    case 1
    then show ?thesis using assms by (auto simp: normalize_length_def Let_def)
  next
    case 2
    then show ?thesis using assms by (auto simp: normalize_length_def Let_def)
  next
    case 3
    show ?thesis
    proof (cases "pf \<or> pb")
      case True
      then obtain t where "pads pad m es (n - length es) = Inr t"
        "v' = PyList (t @ es) \<or> v' = PyList (es @ t)"
        using assms 3 by (auto simp: normalize_length_def Let_def split: sum.splits if_splits)
      then show ?thesis using pads_Inr[of pad m es "n - length es" t] 3 True by auto
    next
      case False
      then show ?thesis using assms 3 by (auto simp: normalize_length_def Let_def)
    qed
  qed
qed

lemma normalize_length_list_front:
  assumes "normalize_length pad n True pb m (PyList es) = Inr v'" "length es < n"
  shows "\<exists>p. pad_entry pad m es = Inr p \<and> rows v' = replicate (n - length es) p @ es"
proof -
  obtain t where t: "pads pad m es (n - length es) = Inr t" "v' = PyList (t @ es)"
    using assms by (auto simp: normalize_length_def Let_def split: sum.splits)
  have "0 < n - length es" using assms(2) by simp
  then obtain p where "pad_entry pad m es = Inr p" "t = replicate (n - length es) p"
    using pads_Inr[OF t(1)] by blast
  then show ?thesis using t(2) by simp
qed

lemma normalize_length_list_entries:
  assumes "normalize_length pad n pf pb m (PyList es) = Inr v'" "e \<in> set (rows v')"
  shows "e \<in> set es \<or> pad_entry pad m es = Inr e"
  using assms
  by (auto simp: normalize_length_def Let_def split: sum.splits if_splits
      dest: in_set_dropD pads_member)

lemma normalize_mods_props:
  assumes "normalize_mods tk a d = Inr d'" "distinct (modalities a)" "0 < max_length a"
  shows "map fst d' = map fst d"
    and "\<forall>m\<in>set (modalities a). \<exists>v v'. map_of d m = Some v
           \<and> normalize_length (PAD_value tk) (nat (max_length a)) (pad_front a) (pad_back a) m v = Inr v'
           \<and> map_of d' m = Some v'"
proof -
  let ?f = "normalize_length (PAD_value tk) (nat (max_length a)) (pad_front a) (pad_back a)"
  let ?R = "\<lambda>m x y. \<exists>v v'. x = Some v \<and> ?f m v = Inr v' \<and> y = Some v'"
  have l: "for_each (modalities a) (\<lambda>m. modify (?f m) m) d = Inr d'"
    using assms(1,3) by (simp add: normalize_mods_def)
  have st: "map fst acc' = map fst acc \<and> (\<forall>j. j \<noteq> m \<longrightarrow> map_of acc' j = map_of acc j)
            \<and> ?R m (map_of acc m) (map_of acc' m)"
    if "modify (?f m) m acc = Inr acc'" for m acc acc'
    using modify_step[OF that] by simp
  have p: "map fst d' = map fst d \<and> (\<forall>j. j \<notin> set (modalities a) \<longrightarrow> map_of d' j = map_of d j)
     \<and> (\<forall>m\<in>set (modalities a). ?R m (map_of d m) (map_of d' m))"
    using l assms(2) st by (rule for_each_mods[where R = ?R])
  show "map fst d' = map fst d" using p by simp
  show "\<forall>m\<in>set (modalities a). \<exists>v v'. map_of d m = Some v \<and> ?f m v = Inr v' \<and> map_of d' m = Some v'"
    using p by simp
qed

lemma finish_mods_norm:
  assumes "finish_mods tk a d = Inr d'" "distinct (modalities a)" "0 < max_length a"
    "m \<in> set (modalities a)"
  shows "\<exists>v v' s. map_of d m = Some v
           \<and> normalize_length (PAD_value tk) (nat (max_length a)) (pad_front a) (pad_back a) m v = Inr v'
           \<and> map_of d' m = Some s \<and> rows s = rows v'"
proof -
  from assms(1) obtain d1 where d1: "normalize_mods tk a d = Inr d1" "asarray_mods (modalities a) d1 = Inr d'"
    by (auto simp: finish_mods_def split: sum.splits)
  from normalize_mods_props(2)[OF d1(1) assms(2,3)] assms(4)
  obtain v v' where v: "map_of d m = Some v"
    "normalize_length (PAD_value tk) (nat (max_length a)) (pad_front a) (pad_back a) m v = Inr v'"
    "map_of d1 m = Some v'" by blast
  have "map_option rows (map_of d' m) = map_option rows (map_of d1 m)"
    using asarray_mods_props(2)[OF d1(2) assms(2)] by simp
  then obtain s where "map_of d' m = Some s" "rows s = rows v'" using v(3) by auto
  then show ?thesis using v by blast
qed

lemma finish_mods_plain:
  assumes "finish_mods tk a d = Inr d'" "distinct (modalities a)" "\<not> 0 < max_length a"
  shows "map_option rows (map_of d' m) = map_option rows (map_of d m)"
proof -
  have "asarray_mods (modalities a) d = Inr d'"
    using assms(1,3) by (simp add: finish_mods_def normalize_mods_def)
  then show ?thesis using asarray_mods_props(2)[OF _ assms(2)] by simp
qed

lemma run_emitted_origin:
  assumes "clean_split_dataset k tk d dataset_name a = Inr st'" "r \<in> emitted st'"
  shows "\<exists>sl\<in>set (labels d). origin tk d a sl r"
proof -
  from assms(1) obtain ds' t n where t: "for_each (labels d) (clean_segment tk ds' d a) init_state = Inr t"
    "st' = t\<lparr>warnings := warnings t @ [Dropped n]\<rparr>"
    by (auto simp: clean_split_dataset_def clean_segments_def split: sum.splits option.splits)
  have "r \<in> emitted t" using assms(2) t(2) by (simp add: emitted_def)
  then have "r \<in> emitted init_state \<or> (\<exists>sl\<in>set (labels d). origin tk d a sl r)"
    using loop_emitted[OF t(1)] by simp
  then show ?thesis by (simp add: emitted_def init_state_def)
qed

lemma v1_check:
  "check_segment (sample_data [(''v1[0]'', Fin 1)]) (sample_args\<lparr>max_length := n, pad_front := pf, pad_back := pb\<rparr>)
     (''v1[0]'', Fin 1) = Inr (Passed ''v1'' (Fin 1) v1_gathered)"
  by (simp add: check_segment_def sample_args_def default_args_def sample_data_def
      sample_features_def gather_def shapes_agree_def mod_shapes_def v1_gathered_def newline_def)

lemma v1_clean:
  "clean_mods sample_tokens (sample_args\<lparr>max_length := n, pad_front := pf, pad_back := pb\<rparr>) v1_gathered
     = Inr v1_cleaned"
  by (simp add: clean_mods_def sample_args_def default_args_def nan_to_num_mods_def modify_def
      get_item_def nan_to_num_seq_def handle_pauses_def v1_gathered_def v1_cleaned_def
      drop_pauses_def empty_lists_def)

lemma run_pad_back:
  "clean_split_dataset sample_sdk sample_tokens (sample_data [(''v1[0]'', Fin 1)]) ''mosi''
      (sample_args\<lparr>max_length := 3, pad_front := False, pad_back := True\<rparr>) =
   Inr \<lparr>train = [v1_padded_back], dev = [], test = [], num_drop = Some 0, warnings = [Dropped 0]\<rparr>"
  by code_simp

lemma run_pad_front:
  "clean_split_dataset sample_sdk sample_tokens (sample_data [(''v1[0]'', Fin 1)]) ''mosi''
      (sample_args\<lparr>max_length := 3, pad_front := True, pad_back := False\<rparr>) =
   Inr \<lparr>train = [v1_padded_front], dev = [], test = [], num_drop = Some 0, warnings = [Dropped 0]\<rparr>"
  by code_simp

section \<open>Removing pauses\<close>

lemma find_sp_mem:
  assumes "find_sp i es = Inr sp"
  shows "k \<in> set sp \<longleftrightarrow> (\<exists>j<length es. k = i + j \<and> first_word (es ! j) = Inr ''sp'')"
  using assms
proof (induction es arbitrary: i sp)
  case Nil
  then show ?case by simp
next
  case (Cons w ws)
  from Cons.prems obtain word sp' where w: "first_word w = Inr word" "find_sp (i + 1) ws = Inr sp'"
    "sp = (if word = ''sp'' then i # sp' else sp')"
    by (auto split: sum.splits)
  have ih: "k \<in> set sp' \<longleftrightarrow> (\<exists>j<length ws. k = i + 1 + j \<and> first_word (ws ! j) = Inr ''sp'')"
    using Cons.IH[OF w(2)] .
  have split: "(\<exists>j<length (w # ws). k = i + j \<and> first_word ((w # ws) ! j) = Inr ''sp'')
      \<longleftrightarrow> (k = i \<and> first_word w = Inr ''sp'')
          \<or> (\<exists>j<length ws. k = i + 1 + j \<and> first_word (ws ! j) = Inr ''sp'')"
  proof
    assume "\<exists>j<length (w # ws). k = i + j \<and> first_word ((w # ws) ! j) = Inr ''sp''"
    then obtain j where j: "j < length (w # ws)" "k = i + j" "first_word ((w # ws) ! j) = Inr ''sp''"
      by blast
    show "(k = i \<and> first_word w = Inr ''sp'')
          \<or> (\<exists>j<length ws. k = i + 1 + j \<and> first_word (ws ! j) = Inr ''sp'')"
    proof (cases j)
      case 0
      then show ?thesis using j by simp
    next
      case (Suc j')
      then have "j' < length ws \<and> k = i + 1 + j' \<and> first_word (ws ! j') = Inr ''sp''" using j by simp
      then show ?thesis by blast
    qed
  next
    assume "(k = i \<and> first_word w = Inr ''sp'')
          \<or> (\<exists>j<length ws. k = i + 1 + j \<and> first_word (ws ! j) = Inr ''sp'')"
    then show "\<exists>j<length (w # ws). k = i + j \<and> first_word ((w # ws) ! j) = Inr ''sp''"
    proof
      assume "k = i \<and> first_word w = Inr ''sp''"
      then have "0 < length (w # ws) \<and> k = i + 0 \<and> first_word ((w # ws) ! 0) = Inr ''sp''" by simp
      then show ?thesis by blast
    next
      assume "\<exists>j<length ws. k = i + 1 + j \<and> first_word (ws ! j) = Inr ''sp''"
      then obtain j where "j < length ws" "k = i + 1 + j" "first_word (ws ! j) = Inr ''sp''" by blast
      then have "Suc j < length (w # ws) \<and> k = i + Suc j \<and> first_word ((w # ws) ! Suc j) = Inr ''sp''"
        by simp
      then show ?thesis by blast
    qed
  qed
  show ?case unfolding split using ih w by auto
qed

lemma keep_shift: "{j. Suc j \<in> {j. i + j \<notin> S}} = {j. i + 1 + j \<notin> S}"
  by simp

lemma keep_rows_nths:
  assumes "keep_rows m sp i es = Inr new" "m \<noteq> Text"
  shows "new = nths es {j. i + j \<notin> set sp}"
  using assms
proof (induction es arbitrary: i new)
  case Nil
  then show ?case by simp
next
  case (Cons r rs)
  show ?case
  proof (cases "i \<in> set sp")
    case True
    then have "keep_rows m sp (i + 1) rs = Inr new" using Cons.prems(1) by simp
    then have "new = nths rs {j. i + 1 + j \<notin> set sp}" using Cons.IH Cons.prems(2) by blast
    then show ?thesis using True by (simp add: nths_Cons)
  next
    case False
    then obtain xs where xs: "keep_rows m sp (i + 1) rs = Inr xs" "new = r # xs"
      using Cons.prems by (auto split: sum.splits)
    then have "xs = nths rs {j. i + 1 + j \<notin> set sp}" using Cons.IH Cons.prems(2) by blast
    then show ?thesis using False xs(2) by (simp add: nths_Cons)
  qed
qed

lemma keep_rows_text:
  assumes "keep_rows Text sp i es = Inr new"
  shows "\<exists>ws. new = map Tok ws \<and> map first_word (nths es {j. i + j \<notin> set sp}) = map Inr ws"
  using assms
proof (induction es arbitrary: i new)
  case Nil
  then show ?case by simp
next
  case (Cons r rs)
  show ?case
  proof (cases "i \<in> set sp")
    case True
    then have "keep_rows Text sp (i + 1) rs = Inr new" using Cons.prems(1) by simp
    then obtain ws where "new = map Tok ws"
      "map first_word (nths rs {j. i + 1 + j \<notin> set sp}) = map Inr ws" using Cons.IH by blast
    then show ?thesis using True by (auto simp: nths_Cons)
  next
    case False
    then obtain word xs where xs: "first_word r = Inr word" "keep_rows Text sp (i + 1) rs = Inr xs"
      "new = Tok word # xs"
      using Cons.prems by (auto split: sum.splits)
    then obtain ws where ws: "xs = map Tok ws"
      "map first_word (nths rs {j. i + 1 + j \<notin> set sp}) = map Inr ws" using Cons.IH by blast
    have "new = map Tok (word # ws) \<and>
        map first_word (nths (r # rs) {j. i + j \<notin> set sp}) = map Inr (word # ws)"
      using False xs ws by (simp add: nths_Cons)
    then show ?thesis by blast
  qed
qed

lemma keep_rows_len:
  assumes "keep_rows m sp i es = Inr new"
  shows "length new = card {j. j < length es \<and> i + j \<notin> set sp}"
proof (cases "m = Text")
  case True
  then obtain ws where "new = map Tok ws"
    "map first_word (nths es {j. i + j \<notin> set sp}) = map Inr ws"
    using keep_rows_text assms by blast
  then have "length new = length (nths es {j. i + j \<notin> set sp})"
    by (metis length_map)
  then show ?thesis by (simp add: length_nths)
next
  case False
  then show ?thesis using keep_rows_nths[OF assms] by (simp add: length_nths)
qed

lemma kept_text_no_sp:
  assumes f: "find_sp 0 es = Inr sp" and k: "keep_rows Text sp 0 es = Inr new" and e: "e \<in> set new"
  shows "\<exists>w. e = Tok w \<and> w \<noteq> ''sp''"
proof -
  from keep_rows_text[OF k] obtain ws where ws: "new = map Tok ws"
    "map first_word (nths es {j. 0 + j \<notin> set sp}) = map Inr ws" by blast
  from e ws(1) obtain w where w: "e = Tok w" "w \<in> set ws" by auto
  then have "Inr w \<in> set (map first_word (nths es {j. 0 + j \<notin> set sp}))" using ws(2) by simp
  then obtain x where x: "x \<in> set (nths es {j. 0 + j \<notin> set sp})" "first_word x = Inr w" by auto
  then obtain j where j: "j < length es" "j \<notin> set sp" "x = es ! j" by (auto simp: set_nths)
  have "w \<noteq> ''sp''"
  proof
    assume "w = ''sp''"
    then have "j \<in> set sp" using find_sp_mem[OF f, of j] j(1,3) x(2) by auto
    then show False using j(2) by simp
  qed
  then show ?thesis using w(1) by blast
qed

lemma empty_lists_loop:
  "map_of (foldl (\<lambda>acc k. AList.update k (PyList []) acc) acc0 ms) m =
     (if m \<in> set ms then Some (PyList []) else map_of acc0 m)"
  by (induction ms arbitrary: acc0) (auto simp: update_conv')

lemma map_of_empty_lists:
  "map_of (empty_lists ms) m = (if m \<in> set ms then Some (PyList []) else None)"
  by (simp add: empty_lists_def empty_lists_loop)

lemma drop_pauses_loop:
  assumes "for_each ms (drop_pauses d sp) (empty_lists ms) = Inr d2" "distinct ms"
  shows "\<forall>m\<in>set ms. \<exists>v new. map_of d m = Some v \<and> keep_rows m sp 0 (rows v) = Inr new
            \<and> map_of d2 m = Some (PyList new)"
proof -
  let ?R = "\<lambda>m x y. \<exists>old v new. x = Some old \<and> map_of d m = Some v
              \<and> keep_rows m sp 0 (rows v) = Inr new \<and> y = Some (PyList (rows old @ new))"
  have st: "map fst acc' = map fst acc \<and> (\<forall>j. j \<noteq> m \<longrightarrow> map_of acc' j = map_of acc j)
            \<and> ?R m (map_of acc m) (map_of acc' m)"
    if b: "drop_pauses d sp m acc = Inr acc'" for m acc acc'
  proof -
    from b obtain v new where v: "map_of d m = Some v" "keep_rows m sp 0 (rows v) = Inr new"
      "modify (\<lambda>old. Inr (PyList (rows old @ new))) m acc = Inr acc'"
      by (auto simp: drop_pauses_def get_item_def split: option.splits sum.splits)
    from modify_step[OF v(3)] show ?thesis using v(1,2) by auto
  qed
  have "map fst d2 = map fst (empty_lists ms)
     \<and> (\<forall>j. j \<notin> set ms \<longrightarrow> map_of d2 j = map_of (empty_lists ms) j)
     \<and> (\<forall>m\<in>set ms. ?R m (map_of (empty_lists ms) m) (map_of d2 m))"
    using assms st by (rule for_each_mods[where R = ?R])
  then show ?thesis by (auto simp: map_of_empty_lists)
qed

lemma clean_mods_remove:
  assumes "clean_mods tk a g = Inr ms1" "remove_pauses a" "Text \<in> set (modalities a)"
    "distinct (modalities a)"
  shows "\<exists>tseq sp. map_of g Text = Some tseq \<and> find_sp 0 (rows tseq) = Inr sp
     \<and> (\<forall>m\<in>set (modalities a). \<exists>v new. map_of g m = Some v
           \<and> keep_rows m sp 0 (rows (if m = Text then v else nan_to_num_seq v)) = Inr new
           \<and> map_of ms1 m = Some (PyList new))"
proof -
  from assms(1,3) obtain d1 where d1: "nan_to_num_mods (modalities a) g = Inr d1"
    "handle_pauses tk a d1 = Inr ms1"
    by (auto simp: clean_mods_def split: sum.splits)
  note n = nan_to_num_mods_props(2)[OF d1(1) assms(4)]
  from d1(2) assms(2) obtain tseq sp where t: "map_of d1 Text = Some tseq"
    "find_sp 0 (rows tseq) = Inr sp"
    "for_each (modalities a) (drop_pauses d1 sp) (empty_lists (modalities a)) = Inr ms1"
    by (auto simp: handle_pauses_def get_item_def split: option.splits sum.splits)
  have gt: "map_of g Text = Some tseq" using t(1) n by simp
  have "\<exists>v new. map_of g m = Some v
           \<and> keep_rows m sp 0 (rows (if m = Text then v else nan_to_num_seq v)) = Inr new
           \<and> map_of ms1 m = Some (PyList new)" if m: "m \<in> set (modalities a)" for m
  proof -
    from drop_pauses_loop[OF t(3) assms(4)] m obtain v1 new where
      v1: "map_of d1 m = Some v1" "keep_rows m sp 0 (rows v1) = Inr new"
      "map_of ms1 m = Some (PyList new)" by blast
    show ?thesis
    proof (cases "m = Text")
      case True
      then show ?thesis using v1 n by auto
    next
      case False
      then have "map_option nan_to_num_seq (map_of g m) = Some v1" using v1(1) n m by simp
      then obtain v where "map_of g m = Some v" "v1 = nan_to_num_seq v" by auto
      then show ?thesis using v1 False by auto
    qed
  qed
  then show ?thesis using gt t(2) by blast
qed

lemma check_segment_passed:
  assumes "check_segment d a sl = Inr (Passed vid lab ms)"
  shows "gather d (fst sl) (modalities a) = Inr ms" "shapes_agree ms"
  using assms by (auto simp: check_segment_def Let_def split: option.splits sum.splits if_splits)

lemma agreed_lengths:
  assumes "shapes_agree g" "map_of g m = Some v" "map_of g m' = Some v'"
  shows "length (rows v) = length (rows v')"
proof -
  have "(m, v) \<in> set g" "(m', v') \<in> set g" using assms(2,3) by (auto dest: map_of_SomeD)
  then show ?thesis using assms(1) unfolding shapes_agree_iff by fastforce
qed

lemma finish_mods_rows:
  assumes "finish_mods tk a ms1 = Inr ms2" "distinct (modalities a)" "m \<in> set (modalities a)"
    "map_of ms1 m = Some (PyList es)"
  shows "\<exists>s. map_of ms2 m = Some s
     \<and> length (rows s) =
         (if 0 < max_length a
          then (if nat (max_length a) \<le> length es \<or> pad_front a \<or> pad_back a
                then nat (max_length a) else length es)
          else length es)
     \<and> (\<forall>e\<in>set (rows s). e \<in> set es \<or> pad_entry (PAD_value tk) m es = Inr e)"
proof (cases "0 < max_length a")
  case True
  from finish_mods_norm[OF assms(1,2) True assms(3)] assms(4) obtain v' s where
    v: "normalize_length (PAD_value tk) (nat (max_length a)) (pad_front a) (pad_back a) m (PyList es) = Inr v'"
    "map_of ms2 m = Some s" "rows s = rows v'" by auto
  show ?thesis
    using normalize_length_list_len[OF v(1)] normalize_length_list_entries[OF v(1)] v(2,3) True by auto
next
  case False
  have "map_option rows (map_of ms2 m) = map_option rows (map_of ms1 m)"
    using finish_mods_plain[OF assms(1,2) False] .
  then obtain s where "map_of ms2 m = Some s" "rows s = es" using assms(4) by auto
  then show ?thesis using False by auto
qed

lemma emitted_text_no_sp:
  assumes c: "clean_mods tk a ms = Inr ms1" "finish_mods tk a ms1 = Inr ms2"
    and f: "remove_pauses a" "Text \<in> set (modalities a)" "distinct (modalities a)"
      "PAD_value tk \<noteq> ''sp''"
  shows "\<exists>s. map_of ms2 Text = Some s \<and> (\<forall>e\<in>set (rows s). \<exists>w. e = Tok w \<and> w \<noteq> ''sp'')"
proof -
  from clean_mods_remove[OF c(1) f(1,2,3)] obtain tseq sp where
    t: "map_of ms Text = Some tseq" "find_sp 0 (rows tseq) = Inr sp"
    and k: "\<forall>m\<in>set (modalities a). \<exists>v new. map_of ms m = Some v
           \<and> keep_rows m sp 0 (rows (if m = Text then v else nan_to_num_seq v)) = Inr new
           \<and> map_of ms1 m = Some (PyList new)" by blast
  from k f(2) t(1) obtain new where n: "keep_rows Text sp 0 (rows tseq) = Inr new"
    "map_of ms1 Text = Some (PyList new)" by fastforce
  from finish_mods_rows[OF c(2) f(3,2) n(2)] obtain s where
    s: "map_of ms2 Text = Some s"
    "\<forall>e\<in>set (rows s). e \<in> set new
         \<or> pad_entry (PAD_value tk) Text new = Inr e" by blast
  have "\<exists>w. e = Tok w \<and> w \<noteq> ''sp''" if "e \<in> set (rows s)" for e
  proof -
    from s(2) that have "e \<in> set new \<or> e = Tok (PAD_value tk)"
      by (auto simp: pad_entry_def)
    then show ?thesis using kept_text_no_sp[OF t(2) n(1)] f(4) by auto
  qed
  then show ?thesis using s(1) by blast
qed

lemma emitted_equal_lengths:
  assumes c: "clean_mods tk a ms = Inr ms1" "finish_mods tk a ms1 = Inr ms2"
    and g: "shapes_agree ms"
    and f: "remove_pauses a" "Text \<in> set (modalities a)" "distinct (modalities a)"
  shows "\<exists>n. \<forall>m\<in>set (modalities a). \<exists>s. map_of ms2 m = Some s \<and> length (rows s) = n"
proof -
  from clean_mods_remove[OF c(1) f(1,2,3)] obtain tseq sp where
    t: "map_of ms Text = Some tseq"
    and k: "\<forall>m\<in>set (modalities a). \<exists>v new. map_of ms m = Some v
           \<and> keep_rows m sp 0 (rows (if m = Text then v else nan_to_num_seq v)) = Inr new
           \<and> map_of ms1 m = Some (PyList new)" by blast
  let ?c = "card {j. j < length (rows tseq) \<and> 0 + j \<notin> set sp}"
  let ?n = "if 0 < max_length a
          then (if nat (max_length a) \<le> ?c \<or> pad_front a \<or> pad_back a
                then nat (max_length a) else ?c)
          else ?c"
  have "\<exists>s. map_of ms2 m = Some s \<and> length (rows s) = ?n" if m: "m \<in> set (modalities a)" for m
  proof -
    from k m obtain v new where v: "map_of ms m = Some v"
      "keep_rows m sp 0 (rows (if m = Text then v else nan_to_num_seq v)) = Inr new"
      "map_of ms1 m = Some (PyList new)" by blast
    have "length (rows (if m = Text then v else nan_to_num_seq v)) = length (rows v)"
      by (simp add: nan_to_num_seq_def)
    moreover have "length (rows v) = length (rows tseq)" using agreed_lengths[OF g v(1) t] .
    ultimately have "length new = ?c" using keep_rows_len[OF v(2)] by simp
    then show ?thesis using finish_mods_rows[OF c(2) f(3) m v(3)] by auto
  qed
  then show ?thesis by blast
qed

lemma synchronized_deletion:
  assumes c: "clean_mods tk a ms = Inr ms1"
    and f: "remove_pauses a" "Text \<in> set (modalities a)" "distinct (modalities a)"
  shows "\<exists>tseq sp. map_of ms Text = Some tseq \<and> find_sp 0 (rows tseq) = Inr sp
     \<and> set sp = {j. j < length (rows tseq) \<and> first_word (rows tseq ! j) = Inr ''sp''}
     \<and> (\<forall>m\<in>set (modalities a). \<exists>v s1. map_of ms m = Some v \<and> map_of ms1 m = Some s1
           \<and> (m \<noteq> Text \<longrightarrow> rows s1 = nths (map nan_to_num_entry (rows v)) (- set sp))
           \<and> (m = Text \<longrightarrow> (\<exists>ws. rows s1 = map Tok ws
                  \<and> map first_word (nths (rows v) (- set sp)) = map Inr ws)))"
proof -
  from clean_mods_remove[OF c f] obtain tseq sp where
    t: "map_of ms Text = Some tseq" "find_sp 0 (rows tseq) = Inr sp"
    and k: "\<forall>m\<in>set (modalities a). \<exists>v new. map_of ms m = Some v
           \<and> keep_rows m sp 0 (rows (if m = Text then v else nan_to_num_seq v)) = Inr new
           \<and> map_of ms1 m = Some (PyList new)" by blast
  have sp: "set sp = {j. j < length (rows tseq) \<and> first_word (rows tseq ! j) = Inr ''sp''}"
    using find_sp_mem[OF t(2)] by auto
  have cm: "{j. 0 + j \<notin> set sp} = - set sp" by auto
  have "\<exists>v s1. map_of ms m = Some v \<and> map_of ms1 m = Some s1
           \<and> (m \<noteq> Text \<longrightarrow> rows s1 = nths (map nan_to_num_entry (rows v)) (- set sp))
           \<and> (m = Text \<longrightarrow> (\<exists>ws. rows s1 = map Tok ws
                  \<and> map first_word (nths (rows v) (- set sp)) = map Inr ws))"
    if m: "m \<in> set (modalities a)" for m
  proof -
    from k m obtain v new where v: "map_of ms m = Some v"
      "keep_rows m sp 0 (rows (if m = Text then v else nan_to_num_seq v)) = Inr new"
      "map_of ms1 m = Some (PyList new)" by blast
    show ?thesis
    proof (cases "m = Text")
      case True
      then have "keep_rows Text sp 0 (rows v) = Inr new" using v(2) by simp
      from keep_rows_text[OF this] show ?thesis using v(1,3) True unfolding cm by auto
    next
      case False
      then have "keep_rows m sp 0 (map nan_to_num_entry (rows v)) = Inr new"
        using v(2) by (simp add: nan_to_num_seq_def)
      from keep_rows_nths[OF this False] show ?thesis using v(1,3) False unfolding cm by auto
    qed
  qed
  then show ?thesis using t sp by blast
qed

text \<open>
  C4. Let \<open>remove_pauses\<close> be set and the text be one of the requested modalities (a
  set), and let the PAD token not be the string \<open>sp\<close>. In every emitted record the text
  sequence holds only decoded words and PAD tokens, none of them \<open>sp\<close>; the sequences of
  all requested modalities have the same number of rows; and the record comes from a
  segment in which the pause handling kept, in every requested modality, exactly the rows
  at the positions whose word is not \<open>sp\<close>, decoded for the text.
\<close>

theorem pauses_removed:
  assumes "clean_split_dataset k tk d dataset_name a = Inr st'"
    and "r \<in> emitted st'"
    and "remove_pauses a"
    and "Text \<in> set (modalities a)"
    and "distinct (modalities a)"
    and "PAD_value tk \<noteq> ''sp''"
  shows "(\<exists>s. map_of (mods_of r) Text = Some s
            \<and> (\<forall>e\<in>set (rows s). \<exists>w. e = Tok w \<and> w \<noteq> ''sp''))
    \<and> (\<exists>n. \<forall>m\<in>set (modalities a). \<exists>s. map_of (mods_of r) m = Some s \<and> length (rows s) = n)
    \<and> (\<exists>sl\<in>set (labels d). \<exists>vid lab ms ms1 tseq sp.
          check_segment d a sl = Inr (Passed vid lab ms) \<and> clean_mods tk a ms = Inr ms1
          \<and> segment_id r = fst sl
          \<and> map_of ms Text = Some tseq \<and> find_sp 0 (rows tseq) = Inr sp
          \<and> set sp = {j. j < length (rows tseq) \<and> first_word (rows tseq ! j) = Inr ''sp''}
          \<and> (\<forall>m\<in>set (modalities a). \<exists>v s1. map_of ms m = Some v \<and> map_of ms1 m = Some s1
                \<and> (m \<noteq> Text \<longrightarrow> rows s1 = nths (map nan_to_num_entry (rows v)) (- set sp))
                \<and> (m = Text \<longrightarrow> (\<exists>ws. rows s1 = map Tok ws
                       \<and> map first_word (nths (rows v) (- set sp)) = map Inr ws))))"
proof -
  from run_emitted_origin[OF assms(1,2)] obtain sl vid lab ms ms1 ms2 where
    sl: "sl \<in> set (labels d)" and c: "check_segment d a sl = Inr (Passed vid lab ms)"
    "clean_mods tk a ms = Inr ms1" "finish_mods tk a ms1 = Inr ms2"
    and r: "r = \<lparr>mods_of = ms2, video_id = vid, segment_id = fst sl, label = lab\<rparr>"
    unfolding origin_def by blast
  have m2: "mods_of r = ms2" "segment_id r = fst sl" using r by simp_all
  have 1: "\<exists>s. map_of (mods_of r) Text = Some s
            \<and> (\<forall>e\<in>set (rows s). \<exists>w. e = Tok w \<and> w \<noteq> ''sp'')"
    unfolding m2 using emitted_text_no_sp[OF c(2,3) assms(3-6)] .
  have 2: "\<exists>n. \<forall>m\<in>set (modalities a). \<exists>s. map_of (mods_of r) m = Some s \<and> length (rows s) = n"
    unfolding m2 using emitted_equal_lengths[OF c(2,3) check_segment_passed(2)[OF c(1)] assms(3-5)] .
  from synchronized_deletion[OF c(2) assms(3-5)] obtain tseq sp where
    3: "map_of ms Text = Some tseq \<and> find_sp 0 (rows tseq) = Inr sp
     \<and> set sp = {j. j < length (rows tseq) \<and> first_word (rows tseq ! j) = Inr ''sp''}
     \<and> (\<forall>m\<in>set (modalities a). \<exists>v s1. map_of ms m = Some v \<and> map_of ms1 m = Some s1
           \<and> (m \<noteq> Text \<longrightarrow> rows s1 = nths (map nan_to_num_entry (rows v)) (- set sp))
           \<and> (m = Text \<longrightarrow> (\<exists>ws. rows s1 = map Tok ws
                  \<and> map first_word (nths (rows v) (- set sp)) = map Inr ws)))" by blast
  have "\<exists>sl\<in>set (labels d). \<exists>vid lab ms ms1 tseq sp.
          check_segment d a sl = Inr (Passed vid lab ms) \<and> clean_mods tk a ms = Inr ms1
          \<and> segment_id r = fst sl
          \<and> map_of ms Text = Some tseq \<and> find_sp 0 (rows tseq) = Inr sp
          \<and> set sp = {j. j < length (rows tseq) \<and> first_word (rows tseq ! j) = Inr ''sp''}
          \<and> (\<forall>m\<in>set (modalities a). \<exists>v s1. map_of ms m = Some v \<and> map_of ms1 m = Some s1
                \<and> (m \<noteq> Text \<longrightarrow> rows s1 = nths (map nan_to_num_entry (rows v)) (- set sp))
                \<and> (m = Text \<longrightarrow> (\<exists>ws. rows s1 = map Tok ws
                       \<and> map first_word (nths (rows v) (- set sp)) = map Inr ws)))"
    using sl c(1,2) m2(2) 3 by blast
  then show ?thesis using 1 2 by blast
qed

theorem pauses_removed_witness:
  "clean_split_dataset sample_sdk sample_tokens (sample_data [(''v1[0]'', Fin 1)]) ''mosi''
      (sample_args\<lparr>max_length := 3, pad_front := True, pad_back := False\<rparr>) =
     Inr \<lparr>train = [v1_padded_front], dev = [], test = [], num_drop = Some 0, warnings = [Dropped 0]\<rparr>
   \<and> remove_pauses (sample_args\<lparr>max_length := 3, pad_front := True, pad_back := False\<rparr>)
   \<and> PAD_value sample_tokens \<noteq> ''sp''
   \<and> (\<exists>s. map_of (mods_of v1_padded_front) Text = Some s \<and> Tok ''sp'' \<notin> set (rows s))
   \<and> (\<exists>s s'. map_of (mods_of v1_padded_front) Text = Some s
          \<and> map_of (mods_of v1_padded_front) Audio = Some s' \<and> length (rows s) = length (rows s'))"
proof -
  let ?a = "sample_args\<lparr>max_length := 3, pad_front := True, pad_back := False\<rparr>"
  let ?st = "\<lparr>train = [v1_padded_front], dev = [], test = [], num_drop = Some 0, warnings = [Dropped 0]\<rparr>"
  have h2: "v1_padded_front \<in> emitted ?st" by (simp add: emitted_def)
  have h3: "remove_pauses ?a" by (simp add: sample_args_def default_args_def)
  have h4: "Text \<in> set (modalities ?a)" by (simp add: sample_args_def default_args_def)
  have h5: "distinct (modalities ?a)" by (simp add: sample_args_def default_args_def)
  have h6: "PAD_value sample_tokens \<noteq> ''sp''" by (simp add: sample_tokens_def)
  have au: "Audio \<in> set (modalities ?a)" by (simp add: sample_args_def default_args_def)
  note t = pauses_removed[OF run_pad_front h2 h3 h4 h5 h6]
  from t obtain s where s: "map_of (mods_of v1_padded_front) Text = Some s"
    "\<forall>e\<in>set (rows s). \<exists>w. e = Tok w \<and> w \<noteq> ''sp''" by blast
  have 1: "Tok ''sp'' \<notin> set (rows s)" using s(2) by auto
  from t obtain n where n: "\<forall>m\<in>set (modalities ?a).
      \<exists>s. map_of (mods_of v1_padded_front) m = Some s \<and> length (rows s) = n" by blast
  from n h4 obtain s1 where s1: "map_of (mods_of v1_padded_front) Text = Some s1" "length (rows s1) = n"
    by blast
  from n au obtain s2 where s2: "map_of (mods_of v1_padded_front) Audio = Some s2" "length (rows s2) = n"
    by blast
  have 2: "\<exists>s s'. map_of (mods_of v1_padded_front) Text = Some s
          \<and> map_of (mods_of v1_padded_front) Audio = Some s' \<and> length (rows s) = length (rows s')"
    using s1 s2 by auto
  show ?thesis using run_pad_front h3 h6 s(1) 1 2 by blast
qed

section \<open>Length normalisation of the emitted records\<close>

text \<open>
  C2, as the code has it. Let \<open>max_length > 0\<close> and let the requested modalities be a
  set. Every emitted record comes from a segment that passed the checks, and for every
  requested modality its sequence has at most \<open>max_length\<close> rows. When the sequence
  entering the length normalisation has at least \<open>max_length\<close> rows, the emitted one is
  its last \<open>max_length\<close> rows. When it is shorter, a pad flag is set and the text is
  requested with \<open>remove_pauses\<close> (the sequences are then Python lists), the emitted
  one has exactly \<open>max_length\<close> rows. When it is shorter and neither pad flag is set, it
  is emitted with its rows unchanged.
\<close>

theorem normalized_lengths:
  assumes "clean_split_dataset k tk d dataset_name a = Inr st'"
    and "r \<in> emitted st'"
    and "0 < max_length a"
    and "distinct (modalities a)"
    and "m \<in> set (modalities a)"
  shows "\<exists>sl\<in>set (labels d). \<exists>vid lab ms ms1 s1 s.
           check_segment d a sl = Inr (Passed vid lab ms) \<and> clean_mods tk a ms = Inr ms1
           \<and> segment_id r = fst sl
           \<and> map_of ms1 m = Some s1 \<and> map_of (mods_of r) m = Some s
           \<and> length (rows s) \<le> nat (max_length a)
           \<and> (max_length a \<le> int (length (rows s1)) \<longrightarrow>
                 rows s = drop (length (rows s1) - nat (max_length a)) (rows s1)
                 \<and> length (rows s) = nat (max_length a))
           \<and> (int (length (rows s1)) < max_length a \<and> (pad_front a \<or> pad_back a)
                \<and> remove_pauses a \<and> Text \<in> set (modalities a) \<longrightarrow>
                 length (rows s) = nat (max_length a))
           \<and> (int (length (rows s1)) < max_length a \<and> \<not> pad_front a \<and> \<not> pad_back a \<longrightarrow>
                 rows s = rows s1)"
proof -
  from run_emitted_origin[OF assms(1,2)] obtain sl vid lab ms ms1 ms2 where
    sl: "sl \<in> set (labels d)" and c: "check_segment d a sl = Inr (Passed vid lab ms)"
    "clean_mods tk a ms = Inr ms1" "finish_mods tk a ms1 = Inr ms2"
    and r: "r = \<lparr>mods_of = ms2, video_id = vid, segment_id = fst sl, label = lab\<rparr>"
    unfolding origin_def by blast
  let ?n = "nat (max_length a)"
  from finish_mods_norm[OF c(3) assms(4,3,5)] obtain s1 v' s where
    s: "map_of ms1 m = Some s1"
    "normalize_length (PAD_value tk) ?n (pad_front a) (pad_back a) m s1 = Inr v'"
    "map_of ms2 m = Some s" "rows s = rows v'" by blast
  have le: "length (rows s) \<le> ?n" using normalize_length_le[OF s(2)] s(4) by simp
  have long: "rows s = drop (length (rows s1) - ?n) (rows s1) \<and> length (rows s) = ?n"
    if "max_length a \<le> int (length (rows s1))"
  proof -
    have "?n \<le> length (rows s1)" using that by linarith
    then show ?thesis using normalize_length_long[OF s(2)] s(4) by simp
  qed
  have lists: "length (rows s) = ?n"
    if h: "int (length (rows s1)) < max_length a \<and> (pad_front a \<or> pad_back a)
                \<and> remove_pauses a \<and> Text \<in> set (modalities a)"
  proof -
    from clean_mods_remove[OF c(2) _ _ assms(4)] h assms(5) s(1)
    obtain new where "s1 = PyList new" by fastforce
    then show ?thesis using normalize_length_list_len[of "PAD_value tk" ?n "pad_front a" "pad_back a" m new v']
        s(2,4) h by auto
  qed
  have plain: "rows s = rows s1"
    if h: "int (length (rows s1)) < max_length a \<and> \<not> pad_front a \<and> \<not> pad_back a"
  proof -
    have "length (rows s1) < ?n" using h by linarith
    moreover have "normalize_length (PAD_value tk) ?n False False m s1 = Inr v'" using s(2) h by simp
    ultimately have "v' = s1" by (rule normalize_length_plain[rotated])
    then show ?thesis using s(4) by simp
  qed
  have "check_segment d a sl = Inr (Passed vid lab ms) \<and> clean_mods tk a ms = Inr ms1
           \<and> segment_id r = fst sl
           \<and> map_of ms1 m = Some s1 \<and> map_of (mods_of r) m = Some s"
    using c s(1,3) r by simp
  then show ?thesis using sl le long lists plain by blast
qed

theorem normalized_lengths_witness:
  "clean_split_dataset sample_sdk sample_tokens (sample_data [(''v1[0]'', Fin 1)]) ''mosi''
      (sample_args\<lparr>max_length := 3, pad_front := False, pad_back := True\<rparr>) =
     Inr \<lparr>train = [v1_padded_back], dev = [], test = [], num_drop = Some 0, warnings = [Dropped 0]\<rparr>
   \<and> (\<exists>s1 s. map_of v1_cleaned Text = Some s1 \<and> length (rows s1) = 2
          \<and> map_of (mods_of v1_padded_back) Text = Some s \<and> length (rows s) = 3)"
proof -
  let ?a = "sample_args\<lparr>max_length := 3, pad_front := False, pad_back := True\<rparr>"
  let ?d = "sample_data [(''v1[0]'', Fin 1)]"
  let ?st = "\<lparr>train = [v1_padded_back], dev = [], test = [], num_drop = Some 0, warnings = [Dropped 0]\<rparr>"
  have h2: "v1_padded_back \<in> emitted ?st" by (simp add: emitted_def)
  have h3: "0 < max_length ?a" by simp
  have h4: "distinct (modalities ?a)" by (simp add: sample_args_def default_args_def)
  have h5: "Text \<in> set (modalities ?a)" by (simp add: sample_args_def default_args_def)
  have rp: "remove_pauses ?a" by (simp add: sample_args_def default_args_def)
  from normalized_lengths[OF run_pad_back h2 h3 h4 h5]
  obtain sl vid lab ms ms1 s1 s where sl: "sl \<in> set (labels ?d)"
    and c: "check_segment ?d ?a sl = Inr (Passed vid lab ms)" "clean_mods sample_tokens ?a ms = Inr ms1"
    and m: "map_of ms1 Text = Some s1" "map_of (mods_of v1_padded_back) Text = Some s"
    and l: "int (length (rows s1)) < max_length ?a \<and> (pad_front ?a \<or> pad_back ?a)
                \<and> remove_pauses ?a \<and> Text \<in> set (modalities ?a) \<longrightarrow>
                 length (rows s) = nat (max_length ?a)"
    by blast
  have "sl = (''v1[0]'', Fin 1)" using sl by (simp add: sample_data_def)
  then have "ms = v1_gathered" using c(1) v1_check[where n = 3 and pf = False and pb = True] by simp
  then have "ms1 = v1_cleaned" using c(2) v1_clean[where n = 3 and pf = False and pb = True] by simp
  then have 1: "map_of v1_cleaned Text = Some s1" using m(1) by simp
  then have 2: "length (rows s1) = 2" by (auto simp: v1_cleaned_def)
  have 3: "length (rows s) = 3" using l 2 rp h5 by simp
  show ?thesis using run_pad_back 1 2 3 m(2) by blast
qed

text \<open>
  The claim as written fails when neither pad flag is set: a sequence shorter than
  \<open>max_length\<close> is emitted with the rows it has. With \<open>max_length = 3\<close> the sample
  segment is emitted with two rows in each modality.
\<close>

theorem ragged_counterexample:
  "clean_split_dataset sample_sdk sample_tokens (sample_data [(''v1[0]'', Fin 1)]) ''mosi''
      (sample_args\<lparr>max_length := 3, pad_front := False, pad_back := False\<rparr>) =
     Inr \<lparr>train = [v1_record], dev = [], test = [], num_drop = Some 0, warnings = [Dropped 0]\<rparr>
   \<and> map_of (mods_of v1_record) Text = Some (PyList [Tok ''hi'', Tok ''there''])
   \<and> length (rows (PyList [Tok ''hi'', Tok ''there''])) = 2"
  by code_simp

text \<open>
  Where the sequences are Python lists (the text is requested with \<open>remove_pauses\<close>),
  \<open>pad_front\<close> does what it is meant to do: a sequence that enters the length
  normalisation with fewer than \<open>max_length\<close> rows is emitted as the pads followed by
  its rows.
\<close>

lemma pad_front_on_lists:
  assumes "clean_split_dataset k tk d dataset_name a = Inr st'"
    and "r \<in> emitted st'"
    and "0 < max_length a"
    and "pad_front a"
    and "remove_pauses a"
    and "Text \<in> set (modalities a)"
    and "distinct (modalities a)"
    and "m \<in> set (modalities a)"
  shows "\<exists>sl\<in>set (labels d). \<exists>vid lab ms ms1 s1 s p.
           check_segment d a sl = Inr (Passed vid lab ms) \<and> clean_mods tk a ms = Inr ms1
           \<and> segment_id r = fst sl
           \<and> map_of ms1 m = Some s1 \<and> map_of (mods_of r) m = Some s
           \<and> (length (rows s1) < nat (max_length a) \<longrightarrow>
                pad_entry (PAD_value tk) m (rows s1) = Inr p
                \<and> rows s = replicate (nat (max_length a) - length (rows s1)) p @ rows s1)"
proof -
  from run_emitted_origin[OF assms(1,2)] obtain sl vid lab ms ms1 ms2 where
    sl: "sl \<in> set (labels d)" and c: "check_segment d a sl = Inr (Passed vid lab ms)"
    "clean_mods tk a ms = Inr ms1" "finish_mods tk a ms1 = Inr ms2"
    and r: "r = \<lparr>mods_of = ms2, video_id = vid, segment_id = fst sl, label = lab\<rparr>"
    unfolding origin_def by blast
  let ?n = "nat (max_length a)"
  from finish_mods_norm[OF c(3) assms(7,3,8)] obtain s1 v' s where
    s: "map_of ms1 m = Some s1"
    "normalize_length (PAD_value tk) ?n (pad_front a) (pad_back a) m s1 = Inr v'"
    "map_of ms2 m = Some s" "rows s = rows v'" by blast
  from clean_mods_remove[OF c(2) assms(5,6,7)] assms(8) s(1)
  obtain new where new: "s1 = PyList new" by fastforce
  have "\<exists>p. length (rows s1) < ?n \<longrightarrow>
                pad_entry (PAD_value tk) m (rows s1) = Inr p
                \<and> rows s = replicate (?n - length (rows s1)) p @ rows s1"
  proof (cases "length (rows s1) < ?n")
    case True
    have "normalize_length (PAD_value tk) ?n True (pad_back a) m (PyList new) = Inr v'"
      using s(2) assms(4) new by simp
    from normalize_length_list_front[OF this] True new s(4) show ?thesis by auto
  next
    case False
    then show ?thesis by simp
  qed
  then obtain p where "length (rows s1) < ?n \<longrightarrow>
                pad_entry (PAD_value tk) m (rows s1) = Inr p
                \<and> rows s = replicate (?n - length (rows s1)) p @ rows s1" by blast
  moreover have "check_segment d a sl = Inr (Passed vid lab ms) \<and> clean_mods tk a ms = Inr ms1
           \<and> segment_id r = fst sl
           \<and> map_of ms1 m = Some s1 \<and> map_of (mods_of r) m = Some s"
    using c s(1,3) r by simp
  ultimately show ?thesis using sl by blast
qed

text \<open>
  C6. The claim fails on the code where the sequence is still a numpy array, as it is
  when the text is not requested. For audio alone with \<open>pad_front\<close>, the three audio
  rows of the sample segment and \<open>max_length = 4\<close>, the one zero pad is added to the
  array instead of being put in front of it: the segment is emitted with its three rows
  and no pad. With \<open>max_length = 5\<close> the two pads and the three rows do not broadcast,
  and the run raises \<open>ValueError\<close>.
\<close>

theorem pad_front_on_array:
  "clean_split_dataset sample_sdk sample_tokens (sample_data [(''v1[0]'', Fin 1)]) ''mosi''
      (default_args\<lparr>modalities := [Audio], max_length := 4, pad_front := True\<rparr>) =
     Inr \<lparr>train = [v1_audio_only], dev = [], test = [], num_drop = Some 0, warnings = [Dropped 0]\<rparr>
   \<and> clean_split_dataset sample_sdk sample_tokens (sample_data [(''v1[0]'', Fin 1)]) ''mosi''
      (default_args\<lparr>modalities := [Audio], max_length := 5, pad_front := True\<rparr>) = Inl ValueError"
  by code_simp

end
